theory Spec2Isabelle
  imports Complex_Main "HOL-Library.Log_Nat"
begin

section \<open>Data model (types.ts)\<close>

text \<open>
  \<^verbatim>\<open>OCRPage\<close> and \<^verbatim>\<open>DocumentState\<close> as declared; optional fields are options.
  Page numbers are the positive integers the scheduler produces; times are
  \<^verbatim>\<open>Date.now()\<close> readings in milliseconds.
\<close>

record OCRPage =
  pageNumber :: nat
  extractedText :: string
  imagePreview :: "string option"
  durationMs :: "int option"

datatype status = Idle | Processing | Completed | Error

record DocumentState =
  fileName :: string
  pages :: "OCRPage list"
  fullText :: string
  status :: status
  progress :: int
  totalDurationMs :: "int option"
  startTime :: "int option"

section \<open>JavaScript library functions used by the code\<close>

text \<open>\<^verbatim>\<open>String.prototype.includes\<close>: the argument occurs as a contiguous substring.\<close>

fun jsIncludes :: "string \<Rightarrow> string \<Rightarrow> bool" where
  "jsIncludes [] sub = (sub = [])"
| "jsIncludes (c # cs) sub = (take (length sub) (c # cs) = sub \<or> jsIncludes cs sub)"

text \<open>\<^verbatim>\<open>Array.prototype.join\<close> on an array of strings.\<close>

fun jsJoin :: "string \<Rightarrow> string list \<Rightarrow> string" where
  "jsJoin sep [] = []"
| "jsJoin sep [x] = x"
| "jsJoin sep (x # y # ys) = x @ sep @ jsJoin sep (y # ys)"

text \<open>\<^verbatim>\<open>Array.prototype.slice(a, b)\<close> for \<open>0 \<le> a \<le> b\<close>.\<close>

definition jsSlice :: "'a list \<Rightarrow> nat \<Rightarrow> nat \<Rightarrow> 'a list" where
  "jsSlice xs a b = take (b - a) (drop a xs)"

text \<open>
  Numbers are IEEE 754 double-precision values. The result of \<^verbatim>\<open>/\<close> and \<^verbatim>\<open>*\<close> is the
  exact quotient or product rounded to the nearest double, a tie going to the even
  significand. \<open>binade x\<close> is the exponent \<open>e\<close> with \<open>2 powi e \<le> x < 2 powi (e + 1)\<close> of a
  positive \<open>x\<close>. A double has 53 significant bits, so its last bit weighs
  \<open>2 powi (e - 52)\<close>; below \<open>2 powi (- 1022)\<close> the numbers are subnormal and the last bit
  weighs \<open>2 powi (- 1074)\<close>. Infinity and NaN are not represented: the operands here are
  an array length and the page count of a document that has a page, so no operation
  overflows or divides by zero.
\<close>

definition binade :: "real \<Rightarrow> int" where
  "binade x = (if 1 \<le> x then bitlen \<lfloor>x\<rfloor> - 1 else - bitlen (\<lceil>1 / x\<rceil> - 1))"

definition roundTiesToEven :: "real \<Rightarrow> int" where
  "roundTiesToEven x =
     (let f = \<lfloor>x\<rfloor>; d = x - of_int f
      in if d < 1 / 2 then f else if 1 / 2 < d then f + 1 else if even f then f else f + 1)"

definition toDouble :: "real \<Rightarrow> real" where
  "toDouble x =
     (if x = 0 then 0
      else (let e = max (binade \<bar>x\<bar>) (- 1022) - 52
            in sgn x * of_int (roundTiesToEven (\<bar>x\<bar> / 2 powi e)) * 2 powi e))"

definition jsDiv :: "real \<Rightarrow> real \<Rightarrow> real" where
  "jsDiv x y = toDouble (x / y)"

definition jsMul :: "real \<Rightarrow> real \<Rightarrow> real" where
  "jsMul x y = toDouble (x * y)"

text \<open>\<^verbatim>\<open>Math.round\<close> of a double: the nearest integer, a tie going up.\<close>

definition Math_round :: "real \<Rightarrow> int" where
  "Math_round x = \<lfloor>x + 1 / 2\<rfloor>"

section \<open>services/geminiService: performOCR\<close>

text \<open>
  What \<^verbatim>\<open>ai.models.generateContent\<close> does to the awaiting \<^verbatim>\<open>performOCR\<close>: it rejects
  with an error (its \<^verbatim>\<open>message\<close>, empty when there is none), or resolves with a
  response whose \<^verbatim>\<open>text\<close> may be undefined.
\<close>

datatype response = Rejects string | Responds "string option"

text \<open>Lines 437-439: the check made before the client is created and called.\<close>

definition performOCR_enter :: "string \<Rightarrow> string option" where
  "performOCR_enter key =
     (if key = [] then Some ''API Key is missing. Please ensure process.env.API_KEY is configured.''
      else None)"

text \<open>The body of the \<^verbatim>\<open>try\<close> once the call has settled (lines 462-474): \<open>Inl\<close> is a throw.\<close>

definition performOCR_try :: "response \<Rightarrow> string + string" where
  "performOCR_try r =
     (case r of
        Rejects m \<Rightarrow> Inl m
      | Responds None \<Rightarrow> Inl ''Empty response from AI model.''
      | Responds (Some t) \<Rightarrow> if t = [] then Inl ''Empty response from AI model.'' else Inr t)"

text \<open>The \<^verbatim>\<open>catch\<close> block (lines 475-486): the message of the error it throws.\<close>

definition performOCR_catch :: "string \<Rightarrow> string" where
  "performOCR_catch m =
     (let message = (if m = [] then ''Unknown API error'' else m) in
      if jsIncludes message ''403'' \<or> jsIncludes message ''API_KEY_INVALID''
        then ''Invalid API Key. Authentication failed.''
      else if jsIncludes message ''429'' then ''Rate limit exceeded. Please wait a moment.''
      else if jsIncludes message ''fetch''
        then ''Network error: Could not connect to Google Gemini API.''
      else ''OCR Processing Failed: '' @ message)"

text \<open>How \<^verbatim>\<open>performOCR\<close> settles after the call: \<open>Inl\<close> the thrown message, \<open>Inr\<close> the text.\<close>

definition performOCR_settle :: "response \<Rightarrow> string + string" where
  "performOCR_settle r =
     (case performOCR_try r of Inl m \<Rightarrow> Inl (performOCR_catch m) | Inr t \<Rightarrow> Inr t)"

section \<open>App.tsx: the component and the invocations of handleFileUpload\<close>

text \<open>
  A page task (one call of \<^verbatim>\<open>processPage\<close>) is suspended at one of its two awaits,
  or has settled: \<open>Rendering\<close> awaits \<^verbatim>\<open>getPage\<close>/\<^verbatim>\<open>render\<close>, \<open>Extracting\<close> awaits
  \<^verbatim>\<open>performOCR\<close> and holds \<^verbatim>\<open>imageData\<close> and \<^verbatim>\<open>pStart\<close>, \<open>Resolved\<close> holds the
  returned page or null, \<open>Rejected\<close> the rethrown error's message.
\<close>

datatype task =
    NotStarted
  | Rendering
  | Extracting string int
  | Resolved "OCRPage option"
  | Rejected string

text \<open>
  Where an invocation of \<^verbatim>\<open>handleFileUpload\<close> is suspended: loading the document
  (lines 75-77), awaiting \<^verbatim>\<open>Promise.all\<close> of the current batch (line 135), or returned.
\<close>

datatype phase = Loading | Awaiting | Returned

text \<open>
  What all invocations share: the React state \<open>docState\<close> and \<open>apiError\<close>, the ref
  \<open>isTerminated\<close> (\<^verbatim>\<open>isTerminatedRef.current\<close>) and the module constant \<open>API_KEY\<close>. State
  updaters are applied in the order they are queued.
\<close>

record component =
  docState :: DocumentState
  apiError :: "string option"
  isTerminated :: bool
  API_KEY :: string

text \<open>
  An invocation of \<^verbatim>\<open>handleFileUpload\<close> at work: the component, and the locals its
  closure holds. \<open>idx\<close> is the loop variable \<^verbatim>\<open>i\<close>, \<open>tasks\<close> gives the task of each page
  number.
\<close>

record invocation = component +
  fileStartTime :: int
  phase :: phase
  totalPages :: nat
  idx :: nat
  results :: "OCRPage list"
  tasks :: "nat \<Rightarrow> task"

text \<open>
  The application: the component and the locals of every invocation made so far, in
  the order they were made. An invocation that was cancelled keeps its locals and its
  page tasks; they go on beside those of a later invocation.
\<close>

type_synonym locals = "int \<times> phase \<times> nat \<times> nat \<times> OCRPage list \<times> (nat \<Rightarrow> task)"

record app = component +
  runs :: "locals list"

fun withLocals :: "'a component_scheme \<Rightarrow> locals \<Rightarrow> invocation" where
  "withLocals c (t0, ph, T, i, rs, ts) =
     \<lparr>docState = docState c, apiError = apiError c, isTerminated = isTerminated c,
      API_KEY = API_KEY c, fileStartTime = t0, phase = ph, totalPages = T, idx = i,
      results = rs, tasks = ts\<rparr>"

definition localsOf :: "invocation \<Rightarrow> locals" where
  "localsOf s = (fileStartTime s, phase s, totalPages s, idx s, results s, tasks s)"

text \<open>Invocation \<open>i\<close> as it finds the component when it resumes.\<close>

definition view :: "nat \<Rightarrow> app \<Rightarrow> invocation" where
  "view i a = withLocals a (runs a ! i)"

text \<open>The application after invocation \<open>i\<close> has run a turn and is suspended as \<open>s\<close>.\<close>

definition store :: "nat \<Rightarrow> invocation \<Rightarrow> app \<Rightarrow> app" where
  "store i s a =
     a\<lparr>docState := docState s, apiError := apiError s, isTerminated := isTerminated s,
       runs := (runs a)[i := localsOf s]\<rparr>"

definition concurrencyLimit :: nat where
  "concurrencyLimit = 12"

definition SEP :: string where
  "SEP = [CHR 0x0A, CHR 0x0A, CHR ''-'', CHR ''-'', CHR ''-'', CHR 0x0A, CHR 0x0A]"

text \<open>Line 129: \<^verbatim>\<open>Array.from({ length: totalPages }, (_, i) => i + 1)\<close>.\<close>

definition pageNumbers :: "nat \<Rightarrow> nat list" where
  "pageNumbers T = map (\<lambda>i. i + 1) [0..<T]"

text \<open>Line 134: the batch of the current loop iteration.\<close>

definition batch :: "invocation \<Rightarrow> nat list" where
  "batch s = jsSlice (pageNumbers (totalPages s)) (idx s) (idx s + concurrencyLimit)"

text \<open>Lines 51-55. It touches the component only.\<close>

definition stopExtraction :: "'a component_scheme \<Rightarrow> 'a component_scheme" where
  "stopExtraction s =
     s\<lparr>isTerminated := True,
       docState := (docState s)\<lparr>status := Idle, progress := 0\<rparr>,
       apiError := Some ''Processing terminated by user.''\<rparr>"

text \<open>
  Lines 57-72: the synchronous start of \<^verbatim>\<open>handleFileUpload\<close>, given the chosen file's
  name (if any) and the clock. It clears the ref that every invocation reads, replaces
  \<open>docState\<close>, and a new invocation begins, suspended at line 75; the invocations made
  before are left as they are.
\<close>

definition handleFileUpload :: "string option \<Rightarrow> int \<Rightarrow> app \<Rightarrow> app" where
  "handleFileUpload file now a =
     (case file of
        None \<Rightarrow> a
      | Some name \<Rightarrow>
          a\<lparr>isTerminated := False,
            apiError := None,
            docState := \<lparr>fileName = name, pages = [], fullText = [], status = Processing,
                         progress = 0, totalDurationMs = None, startTime = Some now\<rparr>,
            runs := runs a @ [(now, Loading, 0, 0, [], \<lambda>n. NotStarted)]\<rparr>)"

text \<open>Line 113: \<^verbatim>\<open>Math.round((updatedPages.length / totalPages) * 100)\<close>.\<close>

definition percent :: "nat \<Rightarrow> nat \<Rightarrow> int" where
  "percent n T = Math_round (jsMul (jsDiv (real n) (real T)) 100)"

text \<open>
  Lines 111-115: the updater queued by a page that succeeded; \<open>T\<close> is the \<^verbatim>\<open>totalPages\<close>
  of the invocation the page belongs to.
\<close>

definition addPage :: "nat \<Rightarrow> OCRPage \<Rightarrow> DocumentState \<Rightarrow> DocumentState" where
  "addPage T newPage prev =
     (let updatedPages = sort_key pageNumber (pages prev @ [newPage]);
          progress' = percent (length updatedPages) T
      in prev\<lparr>pages := updatedPages, progress := progress'\<rparr>)"

text \<open>Line 81: the first check of \<^verbatim>\<open>processPage\<close>, made when the task is dispatched.\<close>

definition processPage_enter :: "invocation \<Rightarrow> task" where
  "processPage_enter s = (if isTerminated s then Resolved None else Rendering)"

text \<open>Lines 139-151: after the loop.\<close>

definition finish :: "int \<Rightarrow> invocation \<Rightarrow> invocation" where
  "finish now s =
     (if isTerminated s then s\<lparr>phase := Returned\<rparr>
      else
        (let sorted = sort_key pageNumber (results s);
             text = jsJoin SEP (map extractedText sorted)
         in s\<lparr>results := sorted,
              docState := (docState s)\<lparr>pages := sorted, fullText := text, status := Completed,
                                       progress := 100,
                                       totalDurationMs := Some (now - fileStartTime s)\<rparr>,
              phase := Returned\<rparr>))"

text \<open>
  Lines 132-135: the loop test, the cancellation check and the dispatch of the batch.
  The flag read at line 81 is the one line 133 has just read.
\<close>

definition loop :: "int \<Rightarrow> invocation \<Rightarrow> invocation" where
  "loop now s =
     (if idx s < length (pageNumbers (totalPages s)) then
        (if isTerminated s then finish now s
         else s\<lparr>tasks := (\<lambda>n. if n \<in> set (batch s) then processPage_enter s else tasks s n),
                phase := Awaiting\<rparr>)
      else finish now s)"

text \<open>Lines 153-157: the \<^verbatim>\<open>catch\<close> of \<^verbatim>\<open>handleFileUpload\<close>.\<close>

definition catchFailure :: "string \<Rightarrow> invocation \<Rightarrow> invocation" where
  "catchFailure m s =
     s\<lparr>apiError := Some (if m = [] then ''A critical error occurred during processing.'' else m),
       docState := (docState s)\<lparr>status := Error\<rparr>,
       phase := Returned\<rparr>"

fun isResolved :: "task \<Rightarrow> bool" where
  "isResolved (Resolved r) = True"
| "isResolved t = False"

fun resultOf :: "task \<Rightarrow> OCRPage option" where
  "resultOf (Resolved r) = r"
| "resultOf t = None"

text \<open>
  Lines 135-137, when \<^verbatim>\<open>Promise.all\<close> resolves: the non-null results of the batch are
  pushed in batch order, \<^verbatim>\<open>i\<close> advances and the loop goes on.
\<close>

definition resume :: "int \<Rightarrow> invocation \<Rightarrow> invocation" where
  "resume now s =
     loop now (s\<lparr>results := results s @ List.map_filter (\<lambda>n. resultOf (tasks s n)) (batch s),
                 idx := idx s + concurrencyLimit\<rparr>)"

text \<open>
  A task returns: \<^verbatim>\<open>Promise.all\<close> resolves in the same turn when every task of the
  batch has returned.
\<close>

definition allResolved :: "invocation \<Rightarrow> bool" where
  "allResolved s = list_all (\<lambda>m. isResolved (tasks s m)) (batch s)"

definition resolve :: "nat \<Rightarrow> OCRPage option \<Rightarrow> int \<Rightarrow> invocation \<Rightarrow> invocation" where
  "resolve n r now s =
     (let s1 = s\<lparr>tasks := (tasks s)(n := Resolved r)\<rparr> in
      if phase s1 = Awaiting \<and> allResolved s1 then resume now s1 else s1)"

text \<open>
  A task throws (lines 120-123 rethrow): a pending \<^verbatim>\<open>Promise.all\<close> rejects at once and
  the \<^verbatim>\<open>catch\<close> of \<^verbatim>\<open>handleFileUpload\<close> runs; the other tasks stay in flight.
\<close>

definition reject :: "nat \<Rightarrow> string \<Rightarrow> invocation \<Rightarrow> invocation" where
  "reject n m s =
     (let s1 = s\<lparr>tasks := (tasks s)(n := Rejected m)\<rparr> in
      if phase s1 = Awaiting then catchFailure m s1 else s1)"

text \<open>
  The turns of the event loop in which an invocation resumes. Each carries the clock
  reading of its turn where the code reads the clock.
  \<^item> \<open>PdfLoaded T now\<close>: the document loaded with \<open>T\<close> pages; \<open>PdfFailed m\<close>: loading threw.
  \<^item> \<open>Rendered n ctx now\<close>: page \<open>n\<close> was fetched and, when \<^verbatim>\<open>getContext\<close> gave a context,
    rendered to \<open>ctx = Some imageData\<close>; \<open>ctx = None\<close> is a null context.
    \<open>RenderFailed n m\<close>: fetching or rendering threw.
  \<^item> \<open>OcrSettled n r now\<close>: the service call of page \<open>n\<close> settled with \<open>r\<close>.
\<close>

datatype turn =
    PdfLoaded nat int
  | PdfFailed string
  | Rendered nat "string option" int
  | RenderFailed nat string
  | OcrSettled nat response int

fun exec :: "turn \<Rightarrow> invocation \<Rightarrow> invocation" where
  "exec (PdfLoaded T now) s =
     (if phase s = Loading then loop now (s\<lparr>totalPages := T\<rparr>) else s)"
| "exec (PdfFailed m) s =
     (if phase s = Loading then catchFailure m s else s)"
| "exec (Rendered n ctx now) s =
     (if tasks s n = Rendering then
        (case ctx of
           None \<Rightarrow> resolve n None now s
         | Some imageData \<Rightarrow>
             if isTerminated s then resolve n None now s
             else (case performOCR_enter (API_KEY s) of
                     Some err \<Rightarrow> reject n err s
                   | None \<Rightarrow> s\<lparr>tasks := (tasks s)(n := Extracting imageData now)\<rparr>))
      else s)"
| "exec (RenderFailed n m) s =
     (if tasks s n = Rendering then reject n m s else s)"
| "exec (OcrSettled n r now) s =
     (case tasks s n of
        Extracting imageData pStart \<Rightarrow>
          (case performOCR_settle r of
             Inl err \<Rightarrow> reject n err s
           | Inr text \<Rightarrow>
               (let newPage = \<lparr>pageNumber = n, extractedText = text,
                                imagePreview = Some imageData,
                                durationMs = Some (now - pStart)\<rparr>;
                    s1 = (if \<not> isTerminated s
                          then s\<lparr>docState := addPage (totalPages s) newPage (docState s)\<rparr>
                          else s)
                in resolve n (Some newPage) now s1))
      | _ \<Rightarrow> s)"

text \<open>
  What happens to the application, one turn at a time.
  \<^item> \<open>Upload file now\<close>: the file input changes. The input is rendered only while status
    is idle (lines 235-246).
  \<^item> \<open>Stop\<close>: the Terminate button, rendered only while status is processing
    (lines 251-287).
  \<^item> \<open>Turn i t\<close>: invocation \<open>i\<close> resumes with \<open>t\<close>.
\<close>

datatype event =
    Upload "string option" int
  | Stop
  | Turn nat turn

fun step :: "event \<Rightarrow> app \<Rightarrow> app" where
  "step (Upload file now) a =
     (if status (docState a) = Idle then handleFileUpload file now a else a)"
| "step Stop a =
     (if status (docState a) = Processing then stopExtraction a else a)"
| "step (Turn i t) a =
     (if i < length (runs a) then store i (exec t (view i a)) a else a)"

fun run :: "event list \<Rightarrow> app \<Rightarrow> app" where
  "run [] a = a"
| "run (e # es) a = run es (step e a)"

text \<open>The component when it is mounted (lines 13-29), for a given key.\<close>

definition initial :: "string \<Rightarrow> app" where
  "initial key =
     \<lparr>docState = \<lparr>fileName = [], pages = [], fullText = [], status = Idle, progress = 0,
                   totalDurationMs = None, startTime = None\<rparr>,
      apiError = None, isTerminated = False, API_KEY = key, runs = []\<rparr>"

section \<open>Predicates on tasks, events and states\<close>

text \<open>A task that has been dispatched and has not settled: an outstanding call.\<close>

fun inflight :: "task \<Rightarrow> bool" where
  "inflight Rendering = True"
| "inflight (Extracting i t) = True"
| "inflight t = False"

fun isRejected :: "task \<Rightarrow> bool" where
  "isRejected (Rejected m) = True"
| "isRejected t = False"

text \<open>A task whose service call has been made and has not settled.\<close>

fun isExtracting :: "task \<Rightarrow> bool" where
  "isExtracting (Extracting i t) = True"
| "isExtracting t = False"


text \<open>
  The batches lines 132-134 compute, one per iteration, when the loop runs to its end:
  \<^verbatim>\<open>for (let i = 0; i < pageNumbers.length; i += concurrencyLimit)\<close>, started at \<open>i\<close>.
\<close>

function batches :: "nat \<Rightarrow> nat list \<Rightarrow> nat list list" where
  "batches i pns =
     (if i < length pns
      then jsSlice pns i (i + concurrencyLimit) # batches (i + concurrencyLimit) pns
      else [])"
  by pat_completeness auto
termination
  by (relation "measure (\<lambda>(i, pns). length pns - i)") (auto simp: concurrencyLimit_def)

declare batches.simps [simp del]

text \<open>
  A turn that is a throw: loading or rendering threw, or \<^verbatim>\<open>performOCR\<close> settles with
  an error. \<open>fails s t\<close>: resuming as \<open>s\<close>, the turn \<open>t\<close> makes a page task that is in
  flight throw (the last case is the missing key, thrown when \<^verbatim>\<open>performOCR\<close> is
  entered).
\<close>

fun isFailure :: "turn \<Rightarrow> bool" where
  "isFailure (PdfFailed m) = True"
| "isFailure (RenderFailed n m) = True"
| "isFailure (OcrSettled n r now) = isl (performOCR_settle r)"
| "isFailure e = False"

fun fails :: "invocation \<Rightarrow> turn \<Rightarrow> bool" where
  "fails s (RenderFailed n m) = (tasks s n = Rendering)"
| "fails s (OcrSettled n r now) =
     (case tasks s n of Extracting i t \<Rightarrow> isl (performOCR_settle r) | _ \<Rightarrow> False)"
| "fails s (Rendered n ctx now) =
     (tasks s n = Rendering \<and> ctx \<noteq> None \<and> \<not> isTerminated s \<and>
      performOCR_enter (API_KEY s) \<noteq> None)"
| "fails s e = False"

text \<open>The turn of line 93 finding no 2D context: the task returns null at line 124.\<close>

fun nullContext :: "turn \<Rightarrow> bool" where
  "nullContext (Rendered n None now) = True"
| "nullContext e = False"

section \<open>Invariants of an invocation\<close>

text \<open>
  The shape of the scheduler: \<open>idx\<close> is a multiple of the limit; only pages up to the
  end of the current batch have a task; every task before the current batch has
  returned; a task in flight belongs to the current batch; while \<^verbatim>\<open>Promise.all\<close> is
  pending every task of the batch has been started, one has not returned and none has
  thrown.
\<close>

definition schedInv :: "invocation \<Rightarrow> bool" where
  "schedInv s \<longleftrightarrow>
     (phase s = Loading \<longrightarrow> (\<forall>n. tasks s n = NotStarted) \<and> idx s = 0) \<and>
     concurrencyLimit dvd idx s \<and>
     (\<forall>n. tasks s n \<noteq> NotStarted \<longrightarrow>
          1 \<le> n \<and> n \<le> totalPages s \<and> n \<le> idx s + concurrencyLimit) \<and>
     (\<forall>n. inflight (tasks s n) \<longrightarrow> idx s < n) \<and>
     (\<forall>n. 1 \<le> n \<and> n \<le> idx s \<and> n \<le> totalPages s \<longrightarrow> isResolved (tasks s n)) \<and>
     (phase s = Awaiting \<longrightarrow>
        idx s < totalPages s \<and> (\<forall>n. n \<in> set (batch s) \<longrightarrow> tasks s n \<noteq> NotStarted) \<and>
        (\<exists>n. n \<in> set (batch s) \<and> \<not> isResolved (tasks s n))) \<and>
     (\<forall>n. isRejected (tasks s n) \<longrightarrow> phase s = Returned)"

text \<open>What the loop needs when it is entered: nothing in flight, nothing beyond \<open>idx\<close>.\<close>

definition preLoop :: "invocation \<Rightarrow> bool" where
  "preLoop s \<longleftrightarrow>
     concurrencyLimit dvd idx s \<and>
     (\<forall>n. tasks s n \<noteq> NotStarted \<longrightarrow> 1 \<le> n \<and> n \<le> totalPages s \<and> n \<le> idx s) \<and>
     (\<forall>n. 1 \<le> n \<and> n \<le> idx s \<and> n \<le> totalPages s \<longrightarrow> isResolved (tasks s n))"

text \<open>The non-null results of the batches already awaited, in page order.\<close>

definition collect :: "invocation \<Rightarrow> OCRPage list" where
  "collect s =
     List.map_filter (\<lambda>n. resultOf (tasks s n)) (take (idx s) (pageNumbers (totalPages s)))"

text \<open>
  The document state against the tasks of an invocation that has the component to
  itself: a returned page carries its task's number;
  every page shown is the result of its task; pages are sorted and free of duplicates;
  \<open>results\<close> is \<open>collect\<close>; what holds at completed, and what before it.
\<close>

definition docInv :: "invocation \<Rightarrow> bool" where
  "docInv s \<longleftrightarrow>
     (\<forall>n p. tasks s n = Resolved (Some p) \<longrightarrow> pageNumber p = n) \<and>
     (\<forall>p. p \<in> set (pages (docState s)) \<longrightarrow> tasks s (pageNumber p) = Resolved (Some p)) \<and>
     sorted (map pageNumber (pages (docState s))) \<and>
     distinct (map pageNumber (pages (docState s))) \<and>
     results s = collect s \<and>
     (status (docState s) = Completed \<longrightarrow>
        phase s = Returned \<and> \<not> isTerminated s \<and> pages (docState s) = results s \<and>
        fullText (docState s) = jsJoin SEP (map extractedText (pages (docState s))) \<and>
        totalPages s \<le> idx s \<and> progress (docState s) = 100) \<and>
     (status (docState s) \<noteq> Completed \<longrightarrow>
        fullText (docState s) = [] \<and>
        progress (docState s) =
          (if isTerminated s then 0
           else percent (length (pages (docState s))) (totalPages s))) \<and>
     (isTerminated s \<longrightarrow> status (docState s) = Idle \<or> status (docState s) = Error) \<and>
     (phase s = Returned \<and> status (docState s) \<noteq> Completed \<and> \<not> isTerminated s \<longrightarrow>
        (\<forall>n. tasks s n = NotStarted) \<or> (\<exists>n. isRejected (tasks s n)))"

definition runInv :: "invocation \<Rightarrow> bool" where
  "runInv s \<longleftrightarrow> schedInv s \<and> docInv s"

section \<open>Predicates on events and on the application\<close>

text \<open>An event in which some invocation throws; the choice of a file; a null context.\<close>

fun throws :: "event \<Rightarrow> bool" where
  "throws (Turn i t) = isFailure t"
| "throws e = False"

fun isUpload :: "event \<Rightarrow> bool" where
  "isUpload (Upload file now) = (file \<noteq> None)"
| "isUpload e = False"

fun noContext :: "event \<Rightarrow> bool" where
  "noContext (Turn i t) = nullContext t"
| "noContext e = False"

text \<open>
  An invocation that has returned and has no page task in flight does nothing any
  more. The application is quiescent when every invocation made so far is like that: a
  file chosen then starts a run that has the component to itself.
\<close>

definition idle :: "invocation \<Rightarrow> bool" where
  "idle s \<longleftrightarrow> phase s = Returned \<and> (\<forall>n. \<not> inflight (tasks s n))"

definition quiescent :: "app \<Rightarrow> bool" where
  "quiescent a \<longleftrightarrow> (\<forall>j<length (runs a). idle (view j a))"

text \<open>
  Invocation \<open>i\<close> has the component to itself: every other invocation is idle, and the
  document state agrees with the tasks of \<open>i\<close>.
\<close>

definition solo :: "nat \<Rightarrow> app \<Rightarrow> bool" where
  "solo i a \<longleftrightarrow>
     i < length (runs a) \<and> runInv (view i a) \<and>
     (\<forall>j<length (runs a). j \<noteq> i \<longrightarrow> idle (view j a))"

text \<open>Every invocation has returned.\<close>

definition allReturned :: "app \<Rightarrow> bool" where
  "allReturned a \<longleftrightarrow> (\<forall>j<length (runs a). phase (view j a) = Returned)"





text \<open>
  The batches dispatched so far against the tasks of the invocation: they are the
  first batches of the loop, and a task has been started exactly when its page is in
  one of them. A turn either starts no task, or it dispatches the batch at \<open>idx\<close>, when
  the tasks started before are those of the pages up to \<open>idx\<close>.
\<close>

definition chunkInv :: "nat list list \<Rightarrow> invocation \<Rightarrow> bool" where
  "chunkInv ds s \<longleftrightarrow>
     ds = take (length ds) (batches 0 (pageNumbers (totalPages s))) \<and>
     (\<forall>n. tasks s n \<noteq> NotStarted \<longleftrightarrow> n \<in> set (concat ds))"

definition startsNone :: "invocation \<Rightarrow> invocation \<Rightarrow> bool" where
  "startsNone s s' \<longleftrightarrow>
     (\<forall>n. tasks s' n \<noteq> NotStarted \<longleftrightarrow> tasks s n \<noteq> NotStarted) \<and>
     (totalPages s' = totalPages s \<or> (\<forall>n. tasks s n = NotStarted))"

definition startsBatch :: "invocation \<Rightarrow> invocation \<Rightarrow> bool" where
  "startsBatch s s' \<longleftrightarrow>
     idx s' < totalPages s' \<and> concurrencyLimit dvd idx s' \<and>
     (\<forall>n. tasks s n \<noteq> NotStarted \<longleftrightarrow> 1 \<le> n \<and> n \<le> idx s') \<and>
     (\<forall>n. tasks s' n \<noteq> NotStarted \<longleftrightarrow>
          1 \<le> n \<and> n \<le> idx s' + concurrencyLimit \<and> n \<le> totalPages s') \<and>
     (totalPages s' = totalPages s \<or> (\<forall>n. tasks s n = NotStarted))"

text \<open>
  The page a turn creates (lines 103-108), if it creates one, and what the trace of
  events says of a page \<open>p\<close> of invocation \<open>i\<close>: the call of \<^verbatim>\<open>performOCR\<close> for it settled in
  a turn that came after the turn in which its rendering finished, and \<open>durationMs\<close>
  is the difference of the clock readings of these two turns.
\<close>

fun produced :: "turn \<Rightarrow> invocation \<Rightarrow> OCRPage option" where
  "produced (OcrSettled n r now) s =
     (case tasks s n of
        Extracting imageData pStart \<Rightarrow>
          (case performOCR_settle r of
             Inl err \<Rightarrow> None
           | Inr text \<Rightarrow> Some \<lparr>pageNumber = n, extractedText = text,
                                 imagePreview = Some imageData,
                                 durationMs = Some (now - pStart)\<rparr>)
      | _ \<Rightarrow> None)"
| "produced t s = None"

definition spans :: "event list \<Rightarrow> nat \<Rightarrow> OCRPage \<Rightarrow> bool" where
  "spans evs i p \<longleftrightarrow>
     (\<exists>img t0 r t1 before after.
        evs = before @ Turn i (OcrSettled (pageNumber p) r t1) # after \<and>
        Turn i (Rendered (pageNumber p) (Some img) t0) \<in> set before \<and>
        durationMs p = Some (t1 - t0) \<and> imagePreview p = Some img)"

text \<open>
  The trace against the state: a task in extraction was rendered in a turn of the
  trace; a returned page, a page in \<open>results\<close> and a page in \<open>pages\<close> are spanned by it.
\<close>

definition traceInv :: "event list \<Rightarrow> app \<Rightarrow> bool" where
  "traceInv evs a \<longleftrightarrow>
     (\<forall>i<length (runs a).
        (\<forall>n img t0. tasks (view i a) n = Extracting img t0 \<longrightarrow>
           Turn i (Rendered n (Some img) t0) \<in> set evs) \<and>
        (\<forall>n p. tasks (view i a) n = Resolved (Some p) \<longrightarrow> pageNumber p = n \<and> spans evs i p) \<and>
        (\<forall>q\<in>set (results (view i a)). spans evs i q)) \<and>
     (\<forall>q\<in>set (pages (docState a)). \<exists>i<length (runs a). spans evs i q)"

section \<open>Example runs\<close>

text \<open>The first file is chosen at time 1000.\<close>

definition exStart :: app where
  "exStart = handleFileUpload (Some ''doc.pdf'') 1000 (initial ''key'')"

text \<open>
  In invocation \<open>i\<close>, page \<open>n\<close> is rendered at time \<open>t0\<close> and its text \<open>t\<close> arrives at time
  \<open>t1\<close>.
\<close>

definition okPage :: "nat \<Rightarrow> nat \<Rightarrow> string \<Rightarrow> int \<Rightarrow> int \<Rightarrow> event list" where
  "okPage i n t t0 t1 =
     [Turn i (Rendered n (Some ''img'') t0), Turn i (OcrSettled n (Responds (Some t)) t1)]"

text \<open>Three pages with texts A, B, C, completing in the order C, A, B.\<close>

definition exCAB :: "event list" where
  "exCAB = Turn 0 (PdfLoaded 3 1001) # okPage 0 3 ''C'' 1010 1020 @ okPage 0 1 ''A'' 1030 1045 @
     okPage 0 2 ''B'' 1050 1070"

text \<open>
  Two pages; page 1 has succeeded and page 2 is being extracted. Then either the user
  stops and page 2 succeeds late, or page 2 is rate limited.
\<close>

definition exOneDone :: "event list" where
  "exOneDone = Turn 0 (PdfLoaded 2 1001) # okPage 0 1 ''A'' 1010 1030 @
     [Turn 0 (Rendered 2 (Some ''img'') 1040)]"

definition exLate :: "event list" where
  "exLate = [Turn 0 (OcrSettled 2 (Responds (Some ''B'')) 1090)]"

definition exFailure :: turn where
  "exFailure = OcrSettled 2 (Rejects ''429 Too Many Requests'') 1060"

text \<open>Three pages; page 2 gets no canvas context.\<close>

definition exNoContext :: "event list" where
  "exNoContext = Turn 0 (PdfLoaded 3 1001) # okPage 0 1 ''A'' 1010 1030 @
     [Turn 0 (Rendered 2 None 1035)] @ okPage 0 3 ''C'' 1040 1060"

text \<open>The component built without a key, after a two-page document has loaded.\<close>

definition exNoKey :: app where
  "exNoKey = run [Turn 0 (PdfLoaded 2 1001)] (handleFileUpload (Some ''doc.pdf'') 1000 (initial []))"



text \<open>
  \<open>inOrder k\<close> describes an invocation when pages \<open>1..k\<close> have succeeded in order and
  nothing else has happened; \<open>firstPages T k\<close> is such a run of the first invocation on
  a document of \<open>T\<close> pages.
\<close>

definition inOrder :: "nat \<Rightarrow> invocation \<Rightarrow> bool" where
  "inOrder k s \<longleftrightarrow>
     \<not> isTerminated s \<and> API_KEY s \<noteq> [] \<and> status (docState s) = Processing \<and>
     phase s = Awaiting \<and> length (pages (docState s)) = k \<and>
     idx s \<le> k \<and> k < idx s + concurrencyLimit \<and> k < totalPages s \<and>
     (\<forall>n. k < n \<and> n \<le> idx s + concurrencyLimit \<and> n \<le> totalPages s \<longrightarrow>
          tasks s n = Rendering) \<and>
     (\<forall>n. idx s < n \<and> n \<le> k \<longrightarrow> isResolved (tasks s n))"

definition firstPages :: "nat \<Rightarrow> nat \<Rightarrow> event list" where
  "firstPages T k = Turn 0 (PdfLoaded T 1001) # concat (map (\<lambda>n. okPage 0 n ''x'' 1010 1020) [1..<Suc k])"

text \<open>
  A run is cancelled while page 2 of 2 is in extraction, and a second file is chosen
  before that call has settled. The call of the cancelled run then succeeds, and then
  page 2 of the new run.
\<close>

definition exOverlap :: "event list" where
  "exOverlap =
     Upload (Some ''old.pdf'') 1000 # Turn 0 (PdfLoaded 2 1001) # okPage 0 1 ''A'' 1010 1020 @
     [Turn 0 (Rendered 2 (Some ''img'') 1030), Stop, Upload (Some ''new.pdf'') 2000,
      Turn 1 (PdfLoaded 2 2001), Turn 1 (Rendered 2 (Some ''img'') 2010),
      Turn 0 (OcrSettled 2 (Responds (Some ''oldB'')) 2020),
      Turn 1 (OcrSettled 2 (Responds (Some ''B'')) 2030)]"

text \<open>
  A run is cancelled while both pages are in extraction, and a second file is chosen.
  Page 1 of the new run succeeds, then page 1 of the cancelled run.
\<close>

definition exDuplicate :: "event list" where
  "exDuplicate =
     [Upload (Some ''old.pdf'') 1000, Turn 0 (PdfLoaded 2 1001),
      Turn 0 (Rendered 1 (Some ''img'') 1010), Turn 0 (Rendered 2 (Some ''img'') 1011),
      Stop, Upload (Some ''new.pdf'') 2000, Turn 1 (PdfLoaded 2 2001)] @
     okPage 1 1 ''A'' 2010 2020 @
     [Turn 0 (OcrSettled 1 (Responds (Some ''oldA'')) 2030)]"


section \<open>Rounding to a double\<close>

lemma powi_nat: "0 \<le> k \<Longrightarrow> (2::real) powi k = 2 ^ nat k"
  by (simp add: power_int_def)

lemma powi_neg: "0 \<le> k \<Longrightarrow> (2::real) powi (- k) = 1 / 2 ^ nat k"
  by (simp add: power_int_minus_divide power_int_def power_one_over)

lemma binade_bounds:
  assumes "0 < x"
  shows "2 powi (binade x) \<le> x" and "x < 2 powi (binade x + 1)"
proof -
  have "2 powi (binade x) \<le> x \<and> x < 2 powi (binade x + 1)"
  proof (cases "1 \<le> x")
    case True
    define m where "m = \<lfloor>x\<rfloor>"
    from True have m: "0 < m" by (simp add: m_def)
    from bitlen_bounds[OF m] have b: "2 ^ nat (bitlen m - 1) \<le> m" "m < 2 ^ nat (bitlen m)" by simp_all
    from m have k: "1 \<le> bitlen m" by (simp add: bitlen_alt_def)
    have e: "binade x = bitlen m - 1" using True by (simp add: binade_def m_def)
    have "real_of_int (2 ^ nat (bitlen m - 1)) \<le> real_of_int m" using b(1) by (simp only: of_int_le_iff)
    also have "\<dots> \<le> x" by (simp add: m_def)
    finally have lo: "2 powi (binade x) \<le> x" using k by (simp add: e powi_nat)
    have "x < real_of_int (m + 1)" unfolding m_def by linarith
    also have "\<dots> \<le> real_of_int (2 ^ nat (bitlen m))" using b(2) by (simp only: of_int_le_iff)
    finally have hi: "x < 2 powi (binade x + 1)" using k by (simp add: e powi_nat)
    from lo hi show ?thesis ..
  next
    case False
    with assms have x: "0 < x" "x < 1" by simp_all
    define N where "N = \<lceil>1 / x\<rceil>"
    define k where "k = bitlen (N - 1)"
    have y: "1 < 1 / x" using x by simp
    then have N: "2 \<le> N" unfolding N_def by linarith
    then have m: "0 < N - 1" by simp
    from bitlen_bounds[OF m] have b: "2 ^ nat (k - 1) \<le> N - 1" "N - 1 < 2 ^ nat k"
      by (simp_all add: k_def)
    from m have k: "1 \<le> k" by (simp add: bitlen_alt_def k_def)
    have e: "binade x = - k" using False by (simp add: binade_def N_def k_def)
    have "1 / x \<le> real_of_int N" unfolding N_def by linarith
    also have "\<dots> \<le> real_of_int (2 ^ nat k)" using b(2) by (simp only: of_int_le_iff)
    finally have "1 / x \<le> 2 ^ nat k" by simp
    then have "1 / 2 ^ nat k \<le> x" using x(1) by (simp add: field_simps)
    then have lo: "2 powi (binade x) \<le> x" using k by (simp add: e powi_neg)
    have "real_of_int (2 ^ nat (k - 1)) \<le> real_of_int (N - 1)" using b(1) by (simp only: of_int_le_iff)
    also have "\<dots> < 1 / x" unfolding N_def by linarith
    finally have "2 ^ nat (k - 1) < 1 / x" by simp
    then have "x < 1 / 2 ^ nat (k - 1)" using x(1) by (simp add: field_simps)
    moreover have "binade x + 1 = - (k - 1)" by (simp add: e)
    ultimately have hi: "x < 2 powi (binade x + 1)" using k by (simp only: powi_neg) 
    from lo hi show ?thesis ..
  qed
  then show "2 powi (binade x) \<le> x" and "x < 2 powi (binade x + 1)" by simp_all
qed

lemma powi_mono: "a \<le> b \<Longrightarrow> (2::real) powi a \<le> 2 powi b"
  by (rule power_int_increasing) simp_all

lemma binade_mono:
  assumes "0 < x" "x \<le> y"
  shows "binade x \<le> binade y"
proof (rule ccontr)
  assume "\<not> binade x \<le> binade y"
  then have "binade y + 1 \<le> binade x" by simp
  from powi_mono[OF this] have "2 powi (binade y + 1) \<le> (2::real) powi (binade x)" .
  also have "\<dots> \<le> x" using binade_bounds(1)[OF assms(1)] .
  finally have "2 powi (binade y + 1) \<le> y" using assms(2) by simp
  moreover have "y < 2 powi (binade y + 1)" using binade_bounds(2)[of y] assms by simp
  ultimately show False by simp
qed

lemma roundTiesToEven_of_int [simp]: "roundTiesToEven (of_int k) = k"
  by (simp add: roundTiesToEven_def)

lemma roundTiesToEven_range:
  "\<lfloor>x\<rfloor> \<le> roundTiesToEven x" "roundTiesToEven x \<le> \<lfloor>x\<rfloor> + 1"
  by (simp_all add: roundTiesToEven_def Let_def)

lemma roundTiesToEven_mono:
  assumes "x \<le> y"
  shows "roundTiesToEven x \<le> roundTiesToEven y"
proof (cases "\<lfloor>x\<rfloor> = \<lfloor>y\<rfloor>")
  case True
  then have "x - of_int \<lfloor>x\<rfloor> \<le> y - of_int \<lfloor>y\<rfloor>" using assms by simp
  then show ?thesis using True by (auto simp: roundTiesToEven_def Let_def)
next
  case False
  with assms have "\<lfloor>x\<rfloor> < \<lfloor>y\<rfloor>" using floor_mono[OF assms] by simp
  then have "\<lfloor>x\<rfloor> + 1 \<le> \<lfloor>y\<rfloor>" by simp
  with roundTiesToEven_range(2)[of x] roundTiesToEven_range(1)[of y] show ?thesis by simp
qed


lemma toDouble_pos:
  assumes "0 < x"
  shows "toDouble x =
     of_int (roundTiesToEven (x / 2 powi (max (binade x) (- 1022) - 52))) *
       2 powi (max (binade x) (- 1022) - 52)"
  using assms by (simp add: toDouble_def Let_def)

lemma toDouble_mono:
  assumes "0 < x" "x \<le> y"
  shows "toDouble x \<le> toDouble y"
proof -
  from assms have y: "0 < y" by simp
  define u where "u = max (binade x) (- 1022) - 52"
  define v where "v = max (binade y) (- 1022) - 52"
  have uv: "u \<le> v" using binade_mono[OF assms] by (simp add: u_def v_def)
  have pu: "0 < (2::real) powi u" and pv: "0 < (2::real) powi v" by simp_all
  have tx: "toDouble x = of_int (roundTiesToEven (x / 2 powi u)) * 2 powi u"
    using toDouble_pos[OF assms(1)] by (simp add: u_def)
  have ty: "toDouble y = of_int (roundTiesToEven (y / 2 powi v)) * 2 powi v"
    using toDouble_pos[OF y] by (simp add: v_def)
  show ?thesis
  proof (cases "u = v")
    case True
    have "x / 2 powi v \<le> y / 2 powi v" using assms(2) pv by (simp add: divide_right_mono)
    from roundTiesToEven_mono[OF this] show ?thesis
      unfolding tx ty True using pv by (simp add: mult_right_mono)
  next
    case False
    with uv have lt: "u < v" by simp
    then have bb: "binade x < binade y" "v = binade y - 52" by (auto simp: u_def v_def)
    let ?b = "binade y"
    have d: "0 \<le> ?b - u" using lt bb(2) by simp
    have "x < 2 powi (binade x + 1)" using binade_bounds(2)[OF assms(1)] .
    also have "\<dots> \<le> 2 powi ?b" using bb(1) by (intro powi_mono) simp
    finally have "x < 2 powi ?b" .
    then have "x / 2 powi u \<le> 2 powi ?b / 2 powi u" using pu by (simp add: divide_right_mono)
    also have "2 powi ?b / 2 powi u = (2::real) powi (?b - u)" by (simp add: power_int_diff)
    also have "\<dots> = real_of_int (2 ^ nat (?b - u))" using d by (simp add: powi_nat)
    finally have "roundTiesToEven (x / 2 powi u) \<le> roundTiesToEven (real_of_int (2 ^ nat (?b - u)))"
      by (rule roundTiesToEven_mono)
    then have "real_of_int (roundTiesToEven (x / 2 powi u)) \<le> real_of_int (2 ^ nat (?b - u))"
      by (simp only: roundTiesToEven_of_int of_int_le_iff)
    also have "\<dots> = 2 powi (?b - u)" using d by (simp add: powi_nat)
    finally have "real_of_int (roundTiesToEven (x / 2 powi u)) * 2 powi u \<le> 2 powi (?b - u) * 2 powi u"
      using pu by (simp add: mult_right_mono)
    also have "2 powi (?b - u) * 2 powi u = (2::real) powi ?b"
      by (simp flip: power_int_add)
    finally have lo: "toDouble x \<le> 2 powi ?b" unfolding tx .
    have "2 powi ?b \<le> y" using binade_bounds(1)[OF y] .
    then have "2 powi ?b / 2 powi v \<le> y / 2 powi v" using pv by (simp add: divide_right_mono)
    moreover have "2 powi ?b / 2 powi v = real_of_int (2 ^ 52)"
      by (simp add: bb(2) flip: power_int_diff)
    ultimately have "roundTiesToEven (real_of_int (2 ^ 52)) \<le> roundTiesToEven (y / 2 powi v)"
      by (intro roundTiesToEven_mono) simp
    then have "real_of_int (2 ^ 52) \<le> real_of_int (roundTiesToEven (y / 2 powi v))"
      by (simp only: roundTiesToEven_of_int of_int_le_iff)
    then have m1: "real_of_int (2 ^ 52) * 2 powi v \<le> real_of_int (roundTiesToEven (y / 2 powi v)) * 2 powi v"
      using pv by (intro mult_right_mono) simp_all
    have m2: "real_of_int (2 ^ 52) * 2 powi v = 2 powi ?b"
      unfolding bb(2) by (simp add: power_int_diff)
    have hi: "2 powi ?b \<le> toDouble y" using m1 unfolding m2 ty .
    from lo hi show ?thesis by simp
  qed
qed

lemma toDouble_nonneg: "0 \<le> x \<Longrightarrow> 0 \<le> toDouble x"
proof (cases "x = 0")
  case False
  assume "0 \<le> x"
  with False have x: "0 < x" by simp
  define q where "q = x / 2 powi (max (binade x) (- 1022) - 52)"
  have "0 \<le> q" using x by (simp add: q_def)
  then have "0 \<le> \<lfloor>q\<rfloor>" by simp
  with roundTiesToEven_range(1)[of q] have "0 \<le> roundTiesToEven q" by linarith
  then show ?thesis unfolding toDouble_pos[OF x] q_def by simp
qed (simp add: toDouble_def)

lemma toDouble_mono0: "0 \<le> x \<Longrightarrow> x \<le> y \<Longrightarrow> toDouble x \<le> toDouble y"
  using toDouble_mono[of x y] toDouble_nonneg[of y] by (cases "x = 0") (simp_all add: toDouble_def)

lemma Math_round_mono: "x \<le> y \<Longrightarrow> Math_round x \<le> Math_round y"
  by (simp add: Math_round_def floor_mono)

lemma percent_mono:
  assumes "a * U \<le> b * T" "0 < T" "0 < U"
  shows "percent a T \<le> percent b U"
proof -
  have "real (a * U) \<le> real (b * T)" using assms(1) by (simp only: of_nat_le_iff)
  then have q: "real a / real T \<le> real b / real U" using assms(2,3) by (simp add: field_simps)
  have "jsDiv (real a) (real T) \<le> jsDiv (real b) (real U)"
    unfolding jsDiv_def by (rule toDouble_mono0) (use q in simp_all)
  moreover have "0 \<le> jsDiv (real a) (real T)" unfolding jsDiv_def by (rule toDouble_nonneg) simp
  ultimately have "jsMul (jsDiv (real a) (real T)) 100 \<le> jsMul (jsDiv (real b) (real U)) 100"
    unfolding jsMul_def by (intro toDouble_mono0) simp_all
  then show ?thesis unfolding percent_def by (rule Math_round_mono)
qed

lemma percent_nonneg: "0 \<le> percent n T"
proof -
  have "0 \<le> jsDiv (real n) (real T)" unfolding jsDiv_def by (rule toDouble_nonneg) simp
  then have "0 \<le> jsMul (jsDiv (real n) (real T)) 100" unfolding jsMul_def by (intro toDouble_nonneg) simp
  then show ?thesis by (simp add: percent_def Math_round_def)
qed

lemma percent_full: "percent (Suc 0) (Suc 0) = 100"
  by code_simp

lemma percent_0 [simp]: "percent 0 T = 0"
  by (simp add: percent_def jsDiv_def jsMul_def toDouble_def Math_round_def)

lemma percent_le_100:
  assumes "n \<le> T"
  shows "percent n T \<le> 100"
proof (cases "T = 0")
  case True
  with assms show ?thesis by simp
next
  case False
  with percent_mono[of n 1 1 T] assms show ?thesis by (simp add: percent_full)
qed

lemma percent_mono_n:
  assumes "n \<le> m"
  shows "percent n T \<le> percent m T"
proof (cases "T = 0")
  case True
  then show ?thesis by (simp add: percent_def jsDiv_def jsMul_def toDouble_def)
next
  case False
  with percent_mono[of n T m T] assms show ?thesis by simp
qed

lemma percent_198: "percent 198 199 = 99"
  by code_simp

lemma percent_lt_100:
  assumes "n < T" "T < 200"
  shows "percent n T < 100"
proof -
  have "n * 199 \<le> 198 * T" using assms by simp
  from percent_mono[OF this] assms have "percent n T \<le> percent 198 199" by simp
  then show ?thesis by (simp add: percent_198)
qed

section \<open>Proofs of the invariants\<close>

lemma pageNumbers_upt: "pageNumbers T = [1..<Suc T]"
  unfolding pageNumbers_def using map_Suc_upt[of 0 T] by simp

lemma take_upt_min: "take k [a..<b] = [a..<min (a + k) b]"
proof (cases "a + k \<le> b")
  case True
  then show ?thesis by (simp add: min_def)
next
  case False
  then have "length [a..<b] \<le> k" by simp
  then have "take k [a..<b] = [a..<b]" by (rule take_all)
  with False show ?thesis by (simp add: min_def)
qed

lemma batch_upt:
  "batch s = [Suc (idx s)..<Suc (min (idx s + concurrencyLimit) (totalPages s))]"
proof -
  have "batch s = take concurrencyLimit (drop (idx s) [1..<Suc (totalPages s)])"
    by (simp only: batch_def jsSlice_def pageNumbers_upt add_diff_cancel_left')
  also have "\<dots> = take concurrencyLimit [Suc (idx s)..<Suc (totalPages s)]"
    by (simp only: drop_upt) simp
  also have "\<dots> = [Suc (idx s)..<min (Suc (idx s) + concurrencyLimit) (Suc (totalPages s))]"
    by (rule take_upt_min)
  finally show ?thesis by (simp add: min_def)
qed

lemma set_batch:
  "n \<in> set (batch s) \<longleftrightarrow> idx s < n \<and> n \<le> idx s + concurrencyLimit \<and> n \<le> totalPages s"
  by (auto simp: batch_upt)

lemma batch_update [simp]:
  "batch (s\<lparr>tasks := t\<rparr>) = batch s" "batch (s\<lparr>docState := d\<rparr>) = batch s"
  "batch (s\<lparr>phase := p\<rparr>) = batch s" "batch (s\<lparr>results := rs\<rparr>) = batch s"
  "batch (s\<lparr>apiError := a\<rparr>) = batch s" "batch (s\<lparr>isTerminated := b\<rparr>) = batch s"
  by (simp_all add: batch_def)

lemma allResolved_iff:
  "allResolved s \<longleftrightarrow> (\<forall>m. m \<in> set (batch s) \<longrightarrow> isResolved (tasks s m))"
  by (auto simp: allResolved_def list_all_iff)

lemma finish_fields [simp]:
  "phase (finish now s) = Returned" "tasks (finish now s) = tasks s"
  "idx (finish now s) = idx s" "totalPages (finish now s) = totalPages s"
  "isTerminated (finish now s) = isTerminated s" "API_KEY (finish now s) = API_KEY s"
  by (simp_all add: finish_def Let_def)

lemma catchFailure_fields [simp]:
  "phase (catchFailure m s) = Returned" "tasks (catchFailure m s) = tasks s"
  "idx (catchFailure m s) = idx s" "totalPages (catchFailure m s) = totalPages s"
  "isTerminated (catchFailure m s) = isTerminated s" "API_KEY (catchFailure m s) = API_KEY s"
  by (simp_all add: catchFailure_def)

lemma schedInv_cong:
  assumes "phase s' = phase s" "tasks s' = tasks s" "idx s' = idx s" "totalPages s' = totalPages s"
  shows "schedInv s' = schedInv s"
  by (simp add: schedInv_def set_batch assms)

lemma schedInv_docState [simp]: "schedInv (s\<lparr>docState := d\<rparr>) = schedInv s"
  by (rule schedInv_cong) simp_all

lemma preLoop_task: "preLoop s \<Longrightarrow> tasks s n = NotStarted \<or> isResolved (tasks s n)"
  unfolding preLoop_def by (metis)

lemma schedInv_loop:
  assumes "preLoop s"
  shows "schedInv (loop now s)"
proof (cases "idx s < totalPages s \<and> \<not> isTerminated s")
  case True
  let ?s' = "s\<lparr>tasks := (\<lambda>n. if n \<in> set (batch s) then Rendering else tasks s n),
                phase := Awaiting\<rparr>"
  have eq: "loop now s = ?s'"
    using True by (simp add: loop_def pageNumbers_upt processPage_enter_def cong del: if_weak_cong)
  have first: "Suc (idx s) \<in> set (batch s)"
    using True by (simp add: set_batch concurrencyLimit_def)
  have "schedInv ?s'"
    unfolding schedInv_def
  proof (intro conjI allI impI)
    show "\<exists>n. n \<in> set (batch ?s') \<and> \<not> isResolved (tasks ?s' n)"
      using first by (intro exI[of _ "Suc (idx s)"]) simp
  next
    fix n assume "inflight (tasks ?s' n)"
    then show "idx ?s' < n"
      using preLoop_task[OF assms, of n] by (cases "tasks s n") (auto simp: set_batch split: if_splits)
  next
    fix n assume "isRejected (tasks ?s' n)"
    then show "phase ?s' = Returned"
      using preLoop_task[OF assms, of n] by (cases "tasks s n") (auto split: if_splits)
  qed (use assms True in \<open>auto simp: preLoop_def set_batch split: if_splits\<close>)
  with eq show ?thesis by simp
next
  case False
  then have eq: "loop now s = finish now s"
    by (auto simp: loop_def pageNumbers_upt)
  have "schedInv (finish now s)"
    unfolding schedInv_def
  proof (intro conjI allI impI)
    fix n assume "inflight (tasks (finish now s) n)"
    then show "idx (finish now s) < n"
      using preLoop_task[OF assms, of n] by (cases "tasks s n") auto
  qed (use assms in \<open>auto simp: preLoop_def\<close>)
  with eq show ?thesis by simp
qed

lemma schedInv_inflightD:
  assumes "schedInv s" "inflight (tasks s n)"
  shows "idx s < n" "n \<le> totalPages s" "n \<le> idx s + concurrencyLimit" "phase s \<noteq> Loading"
    "n \<in> set (batch s)"
proof -
  from assms(2) have ns: "tasks s n \<noteq> NotStarted" by auto
  from assms show "idx s < n" by (simp add: schedInv_def)
  from assms(1) ns show "n \<le> totalPages s" "n \<le> idx s + concurrencyLimit"
    unfolding schedInv_def by blast+
  from assms(1) ns show "phase s \<noteq> Loading" unfolding schedInv_def by blast
  from \<open>idx s < n\<close> \<open>n \<le> totalPages s\<close> \<open>n \<le> idx s + concurrencyLimit\<close>
  show "n \<in> set (batch s)" by (simp add: set_batch)
qed

lemma schedInv_update:
  assumes runInv: "schedInv s" and fl: "inflight (tasks s n)"
    and t: "\<not> isRejected t \<or> phase s = Returned" "t \<noteq> NotStarted"
    and aw: "phase s = Awaiting \<longrightarrow>
             (\<exists>m. m \<in> set (batch s) \<and> \<not> isResolved (((tasks s)(n := t)) m))"
  shows "schedInv (s\<lparr>tasks := (tasks s)(n := t)\<rparr>)"
proof -
  note d = schedInv_inflightD[OF runInv fl]
  show ?thesis
    unfolding schedInv_def
  proof (intro conjI allI impI)
    fix m assume "1 \<le> m \<and> m \<le> idx (s\<lparr>tasks := (tasks s)(n := t)\<rparr>) \<and>
                  m \<le> totalPages (s\<lparr>tasks := (tasks s)(n := t)\<rparr>)"
    then show "isResolved (tasks (s\<lparr>tasks := (tasks s)(n := t)\<rparr>) m)"
      using runInv d(1) by (auto simp: schedInv_def)
  next
    fix m assume "inflight (tasks (s\<lparr>tasks := (tasks s)(n := t)\<rparr>) m)"
    then show "idx (s\<lparr>tasks := (tasks s)(n := t)\<rparr>) < m"
      using runInv d(1) by (auto simp: schedInv_def split: if_splits)
  next
    fix m assume "isRejected (tasks (s\<lparr>tasks := (tasks s)(n := t)\<rparr>) m)"
    then show "phase (s\<lparr>tasks := (tasks s)(n := t)\<rparr>) = Returned"
      using runInv t(1) by (auto simp: schedInv_def split: if_splits)
  next
    fix m assume "tasks (s\<lparr>tasks := (tasks s)(n := t)\<rparr>) m \<noteq> NotStarted"
    then show "m \<le> totalPages (s\<lparr>tasks := (tasks s)(n := t)\<rparr>)"
     "m \<le> idx (s\<lparr>tasks := (tasks s)(n := t)\<rparr>) + concurrencyLimit" "1 \<le> m"
      using runInv d by (auto simp: schedInv_def split: if_splits)
  next
    assume "phase (s\<lparr>tasks := (tasks s)(n := t)\<rparr>) = Awaiting"
    then show "\<exists>m. m \<in> set (batch (s\<lparr>tasks := (tasks s)(n := t)\<rparr>)) \<and>
             \<not> isResolved (tasks (s\<lparr>tasks := (tasks s)(n := t)\<rparr>) m)"
      using aw by simp
  qed (use runInv d t in \<open>auto simp: schedInv_def\<close>)
qed

lemma schedInv_resolve:
  assumes runInv: "schedInv s" and fl: "inflight (tasks s n)"
  shows "schedInv (resolve n r now s)"
proof -
  let ?s1 = "s\<lparr>tasks := (tasks s)(n := Resolved r)\<rparr>"
  note d = schedInv_inflightD[OF runInv fl]
  show ?thesis
  proof (cases "phase s = Awaiting \<and> allResolved ?s1")
    case False
    then have eq: "resolve n r now s = ?s1" by (auto simp: resolve_def Let_def)
    have "phase s = Awaiting \<longrightarrow>
           (\<exists>m. m \<in> set (batch s) \<and> \<not> isResolved (((tasks s)(n := Resolved r)) m))"
      using False by (auto simp: allResolved_iff)
    then have "schedInv ?s1"
      using runInv fl by (intro schedInv_update) auto
    with eq show ?thesis by simp
  next
    case True
    let ?s2 = "?s1\<lparr>results := results ?s1 @ List.map_filter (\<lambda>n. resultOf (tasks ?s1 n)) (batch ?s1),
                     idx := idx ?s1 + concurrencyLimit\<rparr>"
    from True have eq: "resolve n r now s = loop now ?s2"
      by (simp add: resolve_def Let_def resume_def)
    from True have all: "\<And>m. m \<in> set (batch s) \<Longrightarrow> isResolved (((tasks s)(n := Resolved r)) m)"
      by (auto simp: allResolved_iff)
    have "preLoop ?s2"
      unfolding preLoop_def
    proof (intro conjI allI impI)
      show "concurrencyLimit dvd idx ?s2" using runInv by (simp add: schedInv_def)
    next
      fix m assume "tasks ?s2 m \<noteq> NotStarted"
      then show "1 \<le> m" "m \<le> totalPages ?s2" "m \<le> idx ?s2"
        using runInv d by (auto simp: schedInv_def split: if_splits)
    next
      fix m assume "1 \<le> m \<and> m \<le> idx ?s2 \<and> m \<le> totalPages ?s2"
      then show "isResolved (tasks ?s2 m)"
        using runInv all[of m] by (cases "m \<le> idx s") (auto simp: schedInv_def set_batch)
    qed
    then have "schedInv (loop now ?s2)" by (rule schedInv_loop)
    with eq show ?thesis by simp
  qed
qed

lemma schedInv_reject:
  assumes runInv: "schedInv s" and fl: "inflight (tasks s n)"
  shows "schedInv (reject n m s)"
proof -
  let ?s1 = "s\<lparr>tasks := (tasks s)(n := Rejected m)\<rparr>"
  note d = schedInv_inflightD[OF runInv fl]
  have "schedInv (?s1\<lparr>phase := Returned\<rparr>)"
    using runInv d unfolding schedInv_def
    by (auto split: if_splits)
  moreover have "phase s \<noteq> Awaiting \<Longrightarrow> phase s = Returned"
    using d(4) by (cases "phase s") auto
  moreover have "phase s = Returned \<Longrightarrow> ?s1\<lparr>phase := Returned\<rparr> = ?s1" by simp
  moreover have "schedInv (catchFailure m ?s1) = schedInv (?s1\<lparr>phase := Returned\<rparr>)"
    by (rule schedInv_cong) (simp_all add: catchFailure_def)
  ultimately show ?thesis
    by (cases "phase s = Awaiting") (simp_all add: reject_def Let_def)
qed

lemma schedInv_step: "schedInv s \<Longrightarrow> schedInv (exec e s)"
proof (cases e)
  case (PdfLoaded T now)
  assume runInv: "schedInv s"
  show ?thesis
  proof (cases "phase s = Loading")
    case True
    with runInv have "preLoop (s\<lparr>totalPages := T\<rparr>)"
      by (simp add: schedInv_def preLoop_def)
    then show ?thesis using True PdfLoaded by (simp add: schedInv_loop)
  next
    case False
    with runInv PdfLoaded show ?thesis by simp
  qed
next
  case (PdfFailed m)
  assume runInv: "schedInv s"
  show ?thesis
  proof (cases "phase s = Loading")
    case True
    with runInv have "\<And>n. tasks s n = NotStarted" "idx s = 0" by (simp_all add: schedInv_def)
    then have "schedInv (catchFailure m s)"
      by (simp add: schedInv_def concurrencyLimit_def)
    then show ?thesis using PdfFailed True by simp
  next
    case False
    with runInv PdfFailed show ?thesis by simp
  qed
next
  case (Rendered n ctx now)
  assume runInv: "schedInv s"
  show ?thesis
  proof (cases "tasks s n = Rendering")
    case True
    then have fl: "inflight (tasks s n)" by simp
    have "schedInv (s\<lparr>tasks := (tasks s)(n := Extracting i now)\<rparr>)" for i
      using runInv fl schedInv_inflightD(5)[OF runInv fl] by (intro schedInv_update) auto
    then show ?thesis
      using Rendered True runInv fl
      by (auto simp: schedInv_resolve schedInv_reject split: option.splits)
  next
    case False
    with runInv Rendered show ?thesis by simp
  qed
next
  case (RenderFailed n m)
  assume "schedInv s"
  then show ?thesis using RenderFailed by (auto simp: schedInv_reject)
next
  case (OcrSettled n r now)
  assume runInv: "schedInv s"
  show ?thesis
  proof (cases "tasks s n")
    case (Extracting i t)
    then have fl: "inflight (tasks s n)" by simp
    have "schedInv (resolve n p now (s\<lparr>docState := d\<rparr>))" for p d
      using runInv fl by (intro schedInv_resolve) auto
    then show ?thesis
      using OcrSettled Extracting runInv fl
      by (auto simp: Let_def schedInv_resolve schedInv_reject split: sum.splits)
  qed (use runInv OcrSettled in auto)
qed

lemma schedInv_stop [simp]: "schedInv (stopExtraction s) = schedInv s"
  by (rule schedInv_cong) (simp_all add: stopExtraction_def)

lemma map_filter_cong_set:
  "(\<And>x. x \<in> set xs \<Longrightarrow> f x = g x) \<Longrightarrow> List.map_filter f xs = List.map_filter g xs"
  by (induction xs) (auto split: option.splits)

lemma map_filter_app: "List.map_filter f (xs @ ys) = List.map_filter f xs @ List.map_filter f ys"
  by (simp add: List.map_filter_def)

lemma take_pageNumbers: "take i (pageNumbers T) = [1..<Suc (min i T)]"
proof -
  have "take i (pageNumbers T) = [1..<min (1 + i) (Suc T)]"
    by (simp only: pageNumbers_upt take_upt_min)
  then show ?thesis by (simp add: min_def)
qed

lemma set_take_pageNumbers: "n \<in> set (take i (pageNumbers T)) \<longleftrightarrow> 1 \<le> n \<and> n \<le> i \<and> n \<le> T"
  unfolding take_pageNumbers by auto

lemma collect_cong:
  assumes "idx s' = idx s" "totalPages s' = totalPages s"
    "\<And>n. 1 \<le> n \<Longrightarrow> n \<le> idx s \<Longrightarrow> n \<le> totalPages s \<Longrightarrow> tasks s' n = tasks s n"
  shows "collect s' = collect s"
proof -
  have "List.map_filter (\<lambda>n. resultOf (tasks s' n)) (take (idx s) (pageNumbers (totalPages s))) =
        List.map_filter (\<lambda>n. resultOf (tasks s n)) (take (idx s) (pageNumbers (totalPages s)))"
    by (rule map_filter_cong_set) (simp add: set_take_pageNumbers assms(3))
  then show ?thesis by (simp add: collect_def assms(1,2))
qed

lemma collect_pageNumbers:
  assumes "\<And>n p. tasks s n = Resolved (Some p) \<Longrightarrow> pageNumber p = n"
  shows "map pageNumber (collect s) =
         filter (\<lambda>n. resultOf (tasks s n) \<noteq> None) (take (idx s) (pageNumbers (totalPages s)))"
proof -
  have "map pageNumber (List.map_filter (\<lambda>n. resultOf (tasks s n)) xs) =
        filter (\<lambda>n. resultOf (tasks s n) \<noteq> None) xs" for xs
  proof (induction xs)
    case Nil
    then show ?case by simp
  next
    case (Cons x xs)
    show ?case
    proof (cases "tasks s x")
      case (Resolved r)
      then show ?thesis using Cons assms[of x] by (cases r) auto
    qed (use Cons in auto)
  qed
  then show ?thesis by (simp add: collect_def)
qed

lemma collect_sorted:
  assumes "\<And>n p. tasks s n = Resolved (Some p) \<Longrightarrow> pageNumber p = n"
  shows "sorted (map pageNumber (collect s))" "distinct (map pageNumber (collect s))"
proof -
  have eq: "map pageNumber (collect s) =
      filter (\<lambda>n. resultOf (tasks s n) \<noteq> None) [1..<Suc (min (idx s) (totalPages s))]"
    using assms by (simp only: collect_pageNumbers take_pageNumbers)
  show "sorted (map pageNumber (collect s))"
    by (simp only: eq) (intro sorted_wrt_filter sorted_upt)
  show "distinct (map pageNumber (collect s))"
    by (simp only: eq) (intro distinct_filter distinct_upt)
qed

lemma collect_mem:
  assumes "\<And>n p. tasks s n = Resolved (Some p) \<Longrightarrow> pageNumber p = n" "p \<in> set (collect s)"
  shows "tasks s (pageNumber p) = Resolved (Some p)"
proof -
  from assms(2) obtain n where n: "resultOf (tasks s n) = Some p"
    by (auto simp: collect_def List.map_filter_def)
  then have "tasks s n = Resolved (Some p)" by (cases "tasks s n") auto
  with assms(1) show ?thesis by auto
qed

lemma collect_update [simp]:
  "collect (s\<lparr>docState := d\<rparr>) = collect s" "collect (s\<lparr>phase := ph\<rparr>) = collect s"
  "collect (s\<lparr>results := rs\<rparr>) = collect s" "collect (s\<lparr>apiError := a\<rparr>) = collect s"
  "collect (s\<lparr>isTerminated := b\<rparr>) = collect s"
  by (simp_all add: collect_def)

lemma docInv_notCompleted:
  assumes "schedInv s" "docInv s" "inflight (tasks s n) \<or> phase s \<noteq> Returned"
  shows "status (docState s) \<noteq> Completed"
proof
  assume c: "status (docState s) = Completed"
  with assms(2) have "phase s = Returned" "totalPages s \<le> idx s" by (simp_all add: docInv_def)
  with assms(3) have "inflight (tasks s n)" by simp
  from schedInv_inflightD(1,2)[OF assms(1) this] \<open>totalPages s \<le> idx s\<close> show False by simp
qed

lemma docInv_loop:
  assumes pre: "preLoop s" and runInv: "docInv s" and ph: "phase s \<noteq> Returned"
  shows "docInv (loop now s)"
proof -
  from runInv ph have nc: "status (docState s) \<noteq> Completed" by (auto simp: docInv_def)
  from runInv have b1: "\<And>n p. tasks s n = Resolved (Some p) \<Longrightarrow> pageNumber p = n"
    by (simp add: docInv_def)
  show ?thesis
  proof (cases "idx s < totalPages s \<and> \<not> isTerminated s")
    case True
    let ?s' = "s\<lparr>tasks := (\<lambda>n. if n \<in> set (batch s) then Rendering else tasks s n),
                  phase := Awaiting\<rparr>"
    have eq: "loop now s = ?s'"
      using True by (simp add: loop_def pageNumbers_upt processPage_enter_def cong del: if_weak_cong)
    have fresh: "tasks s n = NotStarted" if "n \<in> set (batch s)" for n
      using that pre unfolding preLoop_def set_batch by (metis not_less)
    have same: "tasks ?s' n = Resolved r \<longleftrightarrow> tasks s n = Resolved r" for n r
      using fresh[of n] by auto
    have col: "collect ?s' = collect s"
      by (rule collect_cong) (auto simp: set_batch)
    have "docInv ?s'"
      unfolding docInv_def
    proof (intro conjI allI impI)
      fix n p assume "tasks ?s' n = Resolved (Some p)"
      then show "pageNumber p = n" using b1 same by blast
    next
      fix p assume "p \<in> set (pages (docState ?s'))"
      then have "tasks s (pageNumber p) = Resolved (Some p)" using runInv by (simp add: docInv_def)
      then show "tasks ?s' (pageNumber p) = Resolved (Some p)" using same by blast
    next
      show "results ?s' = collect ?s'" using runInv col by (simp add: docInv_def)
    qed (use runInv nc True in \<open>auto simp: docInv_def\<close>)
    with eq show ?thesis by simp
  next
    case False
    then have eq: "loop now s = finish now s"
      by (auto simp: loop_def pageNumbers_upt)
    show ?thesis
    proof (cases "isTerminated s")
      case True
      then have "finish now s = s\<lparr>phase := Returned\<rparr>" by (simp add: finish_def)
      moreover have "docInv (s\<lparr>phase := Returned\<rparr>)"
        using runInv nc True by (auto simp: docInv_def)
      ultimately show ?thesis using eq by simp
    next
      case nt: False
      have rs: "results s = collect s" using runInv by (simp add: docInv_def)
      have srt: "sort_key pageNumber (results s) = results s"
        unfolding rs by (rule sort_key_id_if_sorted) (rule collect_sorted(1)[OF b1])
      let ?d = "(docState s)\<lparr>pages := results s,
                  fullText := jsJoin SEP (map extractedText (results s)), status := Completed,
                  progress := 100, totalDurationMs := Some (now - fileStartTime s)\<rparr>"
      let ?s' = "s\<lparr>results := results s, docState := ?d, phase := Returned\<rparr>"
      have eq2: "finish now s = ?s'"
        using nt by (simp add: finish_def Let_def srt)
      have "docInv ?s'"
        unfolding docInv_def
      proof (intro conjI allI impI)
        fix p assume "p \<in> set (pages (docState ?s'))"
        then have "p \<in> set (collect s)" using rs by simp
        from collect_mem[OF b1 this] show "tasks ?s' (pageNumber p) = Resolved (Some p)" by simp
      next
        show "sorted (map pageNumber (pages (docState ?s')))"
          using collect_sorted(1)[OF b1] rs by simp
        show "distinct (map pageNumber (pages (docState ?s')))"
          using collect_sorted(2)[OF b1] rs by simp
      qed (use runInv nt False b1 rs in \<open>auto simp: docInv_def\<close>)
      with eq eq2 show ?thesis by simp
    qed
  qed
qed

lemma distinct_map_sort_key: "distinct (map f (sort_key g xs)) = distinct (map f xs)"
  by (simp add: distinct_map)

lemma docInv_settle:
  assumes schedInv: "schedInv s" and runInv: "docInv s" and fl: "inflight (tasks s n)"
    and r: "r = None \<and> d = docState s \<or>
            (\<exists>p. r = Some p \<and> pageNumber p = n \<and>
                 (d = docState s \<or> \<not> isTerminated s \<and> d = addPage (totalPages s) p (docState s)))"
  shows "docInv (s\<lparr>docState := d, tasks := (tasks s)(n := Resolved r)\<rparr>)"
proof -
  let ?s' = "s\<lparr>docState := d, tasks := (tasks s)(n := Resolved r)\<rparr>"
  note dA = schedInv_inflightD[OF schedInv fl]
  have nc: "status (docState s) \<noteq> Completed"
    using docInv_notCompleted[OF schedInv runInv] fl by blast
  from runInv have b1: "\<And>m p. tasks s m = Resolved (Some p) \<Longrightarrow> pageNumber p = m"
    and b2: "\<And>q. q \<in> set (pages (docState s)) \<Longrightarrow> tasks s (pageNumber q) = Resolved (Some q)"
    by (simp_all add: docInv_def)
  have notin: "\<forall>q\<in>set (pages (docState s)). pageNumber q \<noteq> n"
    using b2 fl by auto
  have col: "collect ?s' = collect s"
    by (rule collect_cong) (use dA in auto)
  have st: "status d = status (docState s)" "fullText d = fullText (docState s)"
    using r by (auto simp: addPage_def Let_def)
  have pg: "set (pages d) \<subseteq> set (pages (docState s)) \<union> (case r of None \<Rightarrow> {} | Some p \<Rightarrow> {p})"
    using r by (auto simp: addPage_def Let_def)
  have pgs: "pages d = pages (docState s) \<or>
      (\<exists>p. pageNumber p = n \<and> pages d = sort_key pageNumber (pages (docState s) @ [p]))"
    using r by (auto simp: addPage_def Let_def)
  from runInv have b3: "sorted (map pageNumber (pages (docState s)))"
    and b4: "distinct (map pageNumber (pages (docState s)))"
    by (simp_all add: docInv_def)
  have rej: "(\<exists>m. isRejected (tasks ?s' m))" if "\<exists>m. isRejected (tasks s m)"
  proof -
    from that obtain m where m: "isRejected (tasks s m)" by blast
    with fl have "m \<noteq> n" by (cases "tasks s n") auto
    with m show ?thesis by (intro exI[of _ m]) simp
  qed
  show ?thesis
    unfolding docInv_def
  proof (intro conjI allI impI)
    fix m p assume "tasks ?s' m = Resolved (Some p)"
    then show "pageNumber p = m" using b1 r by (auto split: if_splits)
  next
    fix q assume "q \<in> set (pages (docState ?s'))"
    then have "q \<in> set (pages (docState s)) \<or> r = Some q" using pg by (auto split: option.splits)
    then show "tasks ?s' (pageNumber q) = Resolved (Some q)"
      using b2 notin r by auto
  next
    show "sorted (map pageNumber (pages (docState ?s')))"
      using pgs b3 by auto
  next
    from pgs show "distinct (map pageNumber (pages (docState ?s')))"
    proof (elim disjE exE conjE)
      assume "pages d = pages (docState s)"
      then show ?thesis using b4 by simp
    next
      fix p assume p: "pageNumber p = n" "pages d = sort_key pageNumber (pages (docState s) @ [p])"
      have "pageNumber p \<notin> pageNumber ` set (pages (docState s))"
      proof
        assume "pageNumber p \<in> pageNumber ` set (pages (docState s))"
        then obtain q where "q \<in> set (pages (docState s))" "pageNumber q = pageNumber p" by force
        with notin p(1) show False by simp
      qed
      then show ?thesis using b4 p(2) by (simp add: distinct_map_sort_key)
    qed
  next
    show "results ?s' = collect ?s'" using runInv col by (simp add: docInv_def)
  next
    assume "phase ?s' = Returned \<and> status (docState ?s') \<noteq> Completed \<and> \<not> isTerminated ?s'"
    then have "(\<forall>m. tasks s m = NotStarted) \<or> (\<exists>m. isRejected (tasks s m))"
      using runInv st by (simp add: docInv_def)
    with fl have "\<exists>m. isRejected (tasks s m)" by (metis inflight.simps(3))
    then show "(\<forall>m. tasks ?s' m = NotStarted) \<or> (\<exists>m. isRejected (tasks ?s' m))"
      using rej by blast
  next
    assume "status (docState ?s') \<noteq> Completed"
    show "progress (docState ?s') =
          (if isTerminated ?s' then 0
           else percent (length (pages (docState ?s'))) (totalPages ?s'))"
      using runInv r nc by (auto simp: docInv_def addPage_def Let_def)
  qed (use runInv nc st in \<open>auto simp: docInv_def\<close>)
qed

lemma preLoop_advance:
  assumes runInv: "schedInv s" and fl: "inflight (tasks s n)"
    and all: "allResolved (s\<lparr>tasks := (tasks s)(n := Resolved r)\<rparr>)"
  shows "preLoop (s\<lparr>docState := d, tasks := (tasks s)(n := Resolved r), results := rs,
                    idx := idx s + concurrencyLimit\<rparr>)"
    (is "preLoop ?s2")
proof -
  note dA = schedInv_inflightD[OF runInv fl]
  from all have all': "\<And>m. m \<in> set (batch s) \<Longrightarrow> isResolved (((tasks s)(n := Resolved r)) m)"
    by (auto simp: allResolved_iff)
  show ?thesis
    unfolding preLoop_def
  proof (intro conjI allI impI)
    show "concurrencyLimit dvd idx ?s2" using runInv by (simp add: schedInv_def)
  next
    fix m assume "tasks ?s2 m \<noteq> NotStarted"
    then show "1 \<le> m" "m \<le> totalPages ?s2" "m \<le> idx ?s2"
      using runInv dA by (auto simp: schedInv_def split: if_splits)
  next
    fix m assume "1 \<le> m \<and> m \<le> idx ?s2 \<and> m \<le> totalPages ?s2"
    then show "isResolved (tasks ?s2 m)"
      using runInv all'[of m] by (cases "m \<le> idx s") (auto simp: schedInv_def set_batch)
  qed
qed

lemma collect_advance:
  "collect (s\<lparr>idx := idx s + concurrencyLimit\<rparr>) =
   collect s @ List.map_filter (\<lambda>n. resultOf (tasks s n)) (batch s)"
  by (simp add: collect_def batch_def jsSlice_def take_add map_filter_app)

lemma docInv_resolve:
  assumes schedInv: "schedInv s" and runInv: "docInv s" and fl: "inflight (tasks s n)"
    and r: "r = None \<and> d = docState s \<or>
            (\<exists>p. r = Some p \<and> pageNumber p = n \<and>
                 (d = docState s \<or> \<not> isTerminated s \<and> d = addPage (totalPages s) p (docState s)))"
  shows "docInv (resolve n r now (s\<lparr>docState := d\<rparr>))"
proof -
  let ?s1 = "s\<lparr>docState := d, tasks := (tasks s)(n := Resolved r)\<rparr>"
  have i1: "docInv ?s1" using schedInv runInv fl r by (rule docInv_settle)
  show ?thesis
  proof (cases "phase s = Awaiting \<and> allResolved ?s1")
    case False
    then have "resolve n r now (s\<lparr>docState := d\<rparr>) = ?s1"
      by (auto simp: resolve_def Let_def)
    with i1 show ?thesis by simp
  next
    case True
    let ?rs = "results s @ List.map_filter (\<lambda>m. resultOf (tasks ?s1 m)) (batch s)"
    let ?s2 = "s\<lparr>docState := d, tasks := (tasks s)(n := Resolved r), results := ?rs,
                  idx := idx s + concurrencyLimit\<rparr>"
    from True have eq: "resolve n r now (s\<lparr>docState := d\<rparr>) = loop now ?s2"
      by (simp add: resolve_def Let_def resume_def)
    from True have all: "allResolved (s\<lparr>tasks := (tasks s)(n := Resolved r)\<rparr>)"
      by (simp add: allResolved_iff)
    have pre: "preLoop ?s2" using schedInv fl all by (rule preLoop_advance)
    have "collect ?s2 = collect (?s1\<lparr>idx := idx ?s1 + concurrencyLimit\<rparr>)"
      by (simp add: collect_def)
    also have "\<dots> = collect ?s1 @ List.map_filter (\<lambda>m. resultOf (tasks ?s1 m)) (batch ?s1)"
      by (rule collect_advance)
    finally have col: "collect ?s2 = ?rs" using i1 by (simp add: docInv_def)
    have nc: "status d \<noteq> Completed"
      using i1 True by (auto simp: docInv_def)
    have "docInv ?s2"
      using i1 nc True col unfolding docInv_def by simp
    moreover have "phase ?s2 \<noteq> Returned" using True by simp
    ultimately have "docInv (loop now ?s2)" using pre by (intro docInv_loop)
    with eq show ?thesis by simp
  qed
qed

lemma docInv_reject:
  assumes schedInv: "schedInv s" and runInv: "docInv s" and fl: "inflight (tasks s n)"
  shows "docInv (reject n m s)"
proof -
  note dA = schedInv_inflightD[OF schedInv fl]
  have nc: "status (docState s) \<noteq> Completed"
    using docInv_notCompleted[OF schedInv runInv] fl by blast
  from runInv have b2: "\<And>q. q \<in> set (pages (docState s)) \<Longrightarrow> tasks s (pageNumber q) = Resolved (Some q)"
    by (simp add: docInv_def)
  have notin: "\<forall>q\<in>set (pages (docState s)). pageNumber q \<noteq> n"
    using b2 fl by auto
  let ?s1 = "s\<lparr>tasks := (tasks s)(n := Rejected m)\<rparr>"
  have col: "collect ?s1 = collect s"
    by (rule collect_cong) (use dA in auto)
  have rj: "\<exists>k. isRejected (tasks ?s1 k)" by (intro exI[of _ n]) simp
  have "docInv (?s1\<lparr>docState := dd, apiError := a, phase := ph\<rparr>)"
    if "status dd \<noteq> Completed" "pages dd = pages (docState s)" "fullText dd = fullText (docState s)"
      "progress dd = progress (docState s)"
      "isTerminated s \<longrightarrow> status dd = Idle \<or> status dd = Error" for dd a ph
    unfolding docInv_def
  proof (intro conjI allI impI)
    fix q assume "q \<in> set (pages (docState (?s1\<lparr>docState := dd, apiError := a, phase := ph\<rparr>)))"
    then show "tasks (?s1\<lparr>docState := dd, apiError := a, phase := ph\<rparr>) (pageNumber q) = Resolved (Some q)"
      using b2 notin that by auto
  next
    show "results (?s1\<lparr>docState := dd, apiError := a, phase := ph\<rparr>) =
          collect (?s1\<lparr>docState := dd, apiError := a, phase := ph\<rparr>)"
      using runInv col by (simp add: docInv_def)
  next
    show "(\<forall>k. tasks (?s1\<lparr>docState := dd, apiError := a, phase := ph\<rparr>) k = NotStarted) \<or>
          (\<exists>k. isRejected (tasks (?s1\<lparr>docState := dd, apiError := a, phase := ph\<rparr>) k))"
      using rj by simp
  qed (use runInv nc that in \<open>auto simp: docInv_def split: if_splits\<close>)
  note gen = this
  show ?thesis
  proof (cases "phase s = Awaiting")
    case True
    then have "reject n m s = ?s1\<lparr>docState := (docState s)\<lparr>status := Error\<rparr>,
        apiError := Some (if m = [] then ''A critical error occurred during processing.'' else m),
        phase := Returned\<rparr>"
      by (simp add: reject_def Let_def catchFailure_def)
    moreover have "docInv \<dots>" by (rule gen) simp_all
    ultimately show ?thesis by simp
  next
    case False
    then have "reject n m s = ?s1\<lparr>docState := docState s, apiError := apiError s, phase := phase s\<rparr>"
      by (simp add: reject_def Let_def)
    moreover have "docInv \<dots>" using runInv nc by (intro gen) (auto simp: docInv_def)
    ultimately show ?thesis by simp
  qed
qed

lemma docInv_extracting:
  assumes schedInv: "schedInv s" and runInv: "docInv s" and fl: "tasks s n = Rendering"
  shows "docInv (s\<lparr>tasks := (tasks s)(n := Extracting i t)\<rparr>)"
proof -
  let ?s' = "s\<lparr>tasks := (tasks s)(n := Extracting i t)\<rparr>"
  from fl have fl': "inflight (tasks s n)" by simp
  note dA = schedInv_inflightD[OF schedInv fl']
  from runInv have b2: "\<And>q. q \<in> set (pages (docState s)) \<Longrightarrow> tasks s (pageNumber q) = Resolved (Some q)"
    by (simp add: docInv_def)
  have notin: "\<forall>q\<in>set (pages (docState s)). pageNumber q \<noteq> n"
    using b2 fl by auto
  have col: "collect ?s' = collect s"
    by (rule collect_cong) (use dA in auto)
  show ?thesis
    unfolding docInv_def
  proof (intro conjI allI impI)
    fix q assume "q \<in> set (pages (docState ?s'))"
    then show "tasks ?s' (pageNumber q) = Resolved (Some q)"
      using b2 notin by auto
  next
    show "results ?s' = collect ?s'" using runInv col by (simp add: docInv_def)
  next
    assume "phase ?s' = Returned \<and> status (docState ?s') \<noteq> Completed \<and> \<not> isTerminated ?s'"
    then have "(\<forall>m. tasks s m = NotStarted) \<or> (\<exists>m. isRejected (tasks s m))"
      using runInv by (simp add: docInv_def)
    with fl obtain m where m: "isRejected (tasks s m)" by (metis task.distinct(1))
    with fl have "m \<noteq> n" by auto
    with m have "isRejected (tasks ?s' m)" by simp
    then show "(\<forall>m. tasks ?s' m = NotStarted) \<or> (\<exists>m. isRejected (tasks ?s' m))" by blast
  qed (use runInv in \<open>auto simp: docInv_def split: if_splits\<close>)
qed

lemma docInv_step:
  assumes schedInv: "schedInv s" and runInv: "docInv s"
  shows "docInv (exec e s)"
proof (cases e)
  case (PdfLoaded T now)
  show ?thesis
  proof (cases "phase s = Loading")
    case True
    with schedInv have a: "\<And>n. tasks s n = NotStarted" "idx s = 0" by (simp_all add: schedInv_def)
    from schedInv True have pre: "preLoop (s\<lparr>totalPages := T\<rparr>)"
      by (simp add: schedInv_def preLoop_def)
    have pg: "pages (docState s) = []"
    proof (cases "pages (docState s)")
      case (Cons q qs)
      then have "tasks s (pageNumber q) = Resolved (Some q)" using runInv by (simp add: docInv_def)
      with a(1) show ?thesis by simp
    qed simp
    have "docInv (s\<lparr>totalPages := T\<rparr>)"
      using runInv True a pg by (auto simp: docInv_def collect_def)
    then have "docInv (loop now (s\<lparr>totalPages := T\<rparr>))"
      using pre True by (intro docInv_loop) auto
    then show ?thesis using True PdfLoaded by simp
  next
    case False
    with runInv PdfLoaded show ?thesis by simp
  qed
next
  case (PdfFailed m)
  show ?thesis
  proof (cases "phase s = Loading")
    case True
    with schedInv have a: "\<And>n. tasks s n = NotStarted" by (simp add: schedInv_def)
    from runInv True have nc: "status (docState s) \<noteq> Completed" by (auto simp: docInv_def)
    have "docInv (catchFailure m s)"
      using runInv nc a by (auto simp: docInv_def catchFailure_def)
    then show ?thesis using True PdfFailed by simp
  next
    case False
    with runInv PdfFailed show ?thesis by simp
  qed
next
  case (Rendered n ctx now)
  show ?thesis
  proof (cases "tasks s n = Rendering")
    case True
    then have fl: "inflight (tasks s n)" by simp
    have res: "docInv (resolve n None now s)"
      using docInv_resolve[OF schedInv runInv fl, of None "docState s" now] by simp
    have "docInv (s\<lparr>tasks := (tasks s)(n := Extracting i now)\<rparr>)" for i
      using schedInv runInv True by (rule docInv_extracting)
    then show ?thesis
      using Rendered True res docInv_reject[OF schedInv runInv fl]
      by (auto split: option.splits)
  next
    case False
    with runInv Rendered show ?thesis by simp
  qed
next
  case (RenderFailed n m)
  then show ?thesis using docInv_reject[OF schedInv runInv, of n m] runInv by auto
next
  case (OcrSettled n r now)
  show ?thesis
  proof (cases "tasks s n")
    case (Extracting i t)
    then have fl: "inflight (tasks s n)" by simp
    show ?thesis
    proof (cases "performOCR_settle r")
      case (Inl err)
      then show ?thesis using OcrSettled Extracting docInv_reject[OF schedInv runInv fl] by simp
    next
      case (Inr tx)
      let ?p = "\<lparr>pageNumber = n, extractedText = tx, imagePreview = Some i,
                 durationMs = Some (now - t)\<rparr>"
      show ?thesis
      proof (cases "isTerminated s")
        case True
        have "docInv (resolve n (Some ?p) now (s\<lparr>docState := docState s\<rparr>))"
          using schedInv runInv fl by (rule docInv_resolve) simp
        then show ?thesis using OcrSettled Extracting Inr True by (simp add: Let_def)
      next
        case False
        have "docInv (resolve n (Some ?p) now (s\<lparr>docState := addPage (totalPages s) ?p (docState s)\<rparr>))"
          using schedInv runInv fl by (rule docInv_resolve) (use False in simp)
        then show ?thesis using OcrSettled Extracting Inr False by (simp add: Let_def)
      qed
    qed
  qed (use runInv OcrSettled in auto)
qed

lemma docInv_stop:
  assumes "docInv s" "status (docState s) = Processing"
  shows "docInv (stopExtraction s)"
  using assms by (auto simp: docInv_def stopExtraction_def)

lemma loop_terminated:
  "isTerminated s \<Longrightarrow> docState (loop now s) = docState s \<and> isTerminated (loop now s)"
  by (simp add: loop_def finish_def)

lemma resolve_terminated:
  "isTerminated s \<Longrightarrow> docState (resolve n r now s) = docState s \<and> isTerminated (resolve n r now s)"
  by (simp add: resolve_def Let_def resume_def loop_terminated)

lemma step_terminated:
  assumes "isTerminated s" "status (docState s) \<noteq> Processing" "\<not> isFailure e"
  shows "docState (exec e s) = docState s \<and> isTerminated (exec e s)"
proof (cases e)
  case (PdfLoaded T now)
  then show ?thesis using assms by (simp add: loop_terminated)
next
  case (Rendered n ctx now)
  then show ?thesis using assms by (simp add: resolve_terminated split: option.splits)
next
  case (OcrSettled n r now)
  then show ?thesis using assms
    by (cases "performOCR_settle r") (auto simp: resolve_terminated Let_def split: task.splits)
qed (use assms in auto)

lemma error_step:
  assumes "status (docState s) = Error" "phase s = Returned"
  shows "status (docState (exec e s)) = Error \<and> phase (exec e s) = Returned \<and>
         fullText (docState (exec e s)) = fullText (docState s)"
proof (cases e)
  case (Rendered n ctx now)
  then show ?thesis using assms
    by (auto simp: resolve_def reject_def Let_def split: option.splits)
next
  case (OcrSettled n r now)
  then show ?thesis using assms
    by (cases "performOCR_settle r")
       (auto simp: resolve_def reject_def addPage_def Let_def split: task.splits)
qed (use assms in \<open>auto simp: reject_def Let_def\<close>)

lemma fails_step:
  assumes "phase s = Awaiting" "fails s e"
  shows "status (docState (exec e s)) = Error \<and> phase (exec e s) = Returned \<and>
         pages (docState (exec e s)) = pages (docState s) \<and>
         fullText (docState (exec e s)) = fullText (docState s) \<and>
         progress (docState (exec e s)) = progress (docState s) \<and>
         apiError (exec e s) \<noteq> None"
proof (cases e)
  case (Rendered n ctx now)
  then show ?thesis using assms
    by (auto simp: reject_def Let_def catchFailure_def split: option.splits)
next
  case (RenderFailed n m)
  then show ?thesis using assms by (auto simp: reject_def Let_def catchFailure_def)
next
  case (OcrSettled n r now)
  then show ?thesis using assms
    by (cases "performOCR_settle r")
       (auto simp: reject_def Let_def catchFailure_def split: task.splits)
qed (use assms in auto)

section \<open>How a turn changes the tasks\<close>

lemma tasks_loop: "tasks (loop now s) m = tasks s m \<or> tasks (loop now s) m = Rendering"
  by (simp add: loop_def processPage_enter_def)

lemma tasks_resolve:
  "tasks (resolve n r now s) m = ((tasks s)(n := Resolved r)) m \<or>
   tasks (resolve n r now s) m = Rendering"
proof -
  let ?s2 = "s\<lparr>tasks := (tasks s)(n := Resolved r),
                results := results s @ List.map_filter (\<lambda>k. resultOf (((tasks s)(n := Resolved r)) k))
                   (batch s),
                idx := idx s + concurrencyLimit\<rparr>"
  have "resolve n r now s = s\<lparr>tasks := (tasks s)(n := Resolved r)\<rparr> \<or>
        resolve n r now s = loop now ?s2"
    by (simp add: resolve_def Let_def resume_def)
  then show ?thesis using tasks_loop[of now ?s2 m] by auto
qed

lemma tasks_reject: "tasks (reject n msg s) = (tasks s)(n := Rejected msg)"
  by (simp add: reject_def Let_def)

lemma isTerminated_loop [simp]: "isTerminated (loop now s) = isTerminated s"
  by (simp add: loop_def)

lemma isTerminated_resolve [simp]: "isTerminated (resolve n r now s) = isTerminated s"
  by (simp add: resolve_def Let_def resume_def)

lemma isTerminated_reject [simp]: "isTerminated (reject n msg s) = isTerminated s"
  by (simp add: reject_def Let_def)

lemma API_KEY_loop [simp]: "API_KEY (loop now s) = API_KEY s"
  by (simp add: loop_def)

lemma API_KEY_resolve [simp]: "API_KEY (resolve n r now s) = API_KEY s"
  by (simp add: resolve_def Let_def resume_def)

lemma API_KEY_reject [simp]: "API_KEY (reject n msg s) = API_KEY s"
  by (simp add: reject_def Let_def)

lemma API_KEY_step [simp]: "API_KEY (exec e s) = API_KEY s"
  by (cases e) (auto simp: Let_def split: option.splits task.splits sum.splits)

lemma noNull_step:
  assumes "\<not> isTerminated s" "\<not> nullContext e" "\<forall>n. tasks s n \<noteq> Resolved None"
  shows "tasks (exec e s) m \<noteq> Resolved None"
proof (cases e)
  case (PdfLoaded T now)
  then show ?thesis using assms tasks_loop[of now "s\<lparr>totalPages := T\<rparr>" m] by auto
next
  case (Rendered n ctx now)
  then obtain i where "ctx = Some i" using assms(2) by (cases ctx) auto
  then show ?thesis using Rendered assms
    by (auto simp: tasks_reject split: option.splits)
next
  case (RenderFailed n msg)
  then show ?thesis using assms by (auto simp: tasks_reject)
next
  case (OcrSettled n r now)
  show ?thesis
  proof (cases "tasks s n")
    case (Extracting i t)
    show ?thesis
    proof (cases "performOCR_settle r")
      case (Inl err)
      then show ?thesis using OcrSettled Extracting assms by (auto simp: tasks_reject)
    next
      case (Inr tx)
      let ?p = "\<lparr>pageNumber = n, extractedText = tx, imagePreview = Some i,
                 durationMs = Some (now - t)\<rparr>"
      let ?s1 = "s\<lparr>docState := addPage (totalPages s) ?p (docState s)\<rparr>"
      have "exec e s = resolve n (Some ?p) now ?s1"
        using OcrSettled Extracting Inr assms(1) by (simp add: Let_def)
      then show ?thesis
        using tasks_resolve[of n "Some ?p" now ?s1 m] assms(3)[rule_format, of m]
        by (auto split: if_splits)
    qed
  qed (use OcrSettled assms in auto)
qed (use assms in auto)

lemma filter_all: "(\<And>x. x \<in> set xs \<Longrightarrow> P x) \<Longrightarrow> filter P xs = xs"
  by (induction xs) auto

lemma step_Extracting:
  assumes "tasks (exec e s) n = Extracting i t0"
  shows "tasks s n = Extracting i t0 \<or> e = Rendered n (Some i) t0"
proof (cases e)
  case (PdfLoaded T now)
  then show ?thesis using assms tasks_loop[of now "s\<lparr>totalPages := T\<rparr>" n] by (auto split: if_splits)
next
  case (Rendered m ctx now)
  then show ?thesis using assms tasks_resolve[of m None now s n]
    by (auto simp: tasks_reject split: if_splits option.splits)
next
  case (RenderFailed m msg)
  then show ?thesis using assms by (auto simp: tasks_reject split: if_splits)
next
  case (OcrSettled m r now)
  show ?thesis
  proof (cases "tasks s m")
    case (Extracting j t)
    show ?thesis
    proof (cases "performOCR_settle r")
      case (Inl err)
      then show ?thesis using OcrSettled Extracting assms
        by (auto simp: tasks_reject split: if_splits)
    next
      case (Inr tx)
      let ?p = "\<lparr>pageNumber = m, extractedText = tx, imagePreview = Some j,
                 durationMs = Some (now - t)\<rparr>"
      define s1 where "s1 = (if \<not> isTerminated s
          then s\<lparr>docState := addPage (totalPages s) ?p (docState s)\<rparr> else s)"
      have s1: "tasks s1 = tasks s" "exec e s = resolve m (Some ?p) now s1"
        using OcrSettled Extracting Inr by (simp_all add: s1_def Let_def)
      then show ?thesis using tasks_resolve[of m "Some ?p" now s1 n] assms
        by (auto split: if_splits)
    qed
  qed (use OcrSettled assms in auto)
qed (use assms in \<open>auto split: if_splits\<close>)

lemma step_Resolved:
  assumes "tasks (exec e s) n = Resolved (Some p)"
  shows "tasks s n = Resolved (Some p) \<or>
         (\<exists>i t0 r t1. e = OcrSettled n r t1 \<and> tasks s n = Extracting i t0 \<and>
            durationMs p = Some (t1 - t0) \<and> imagePreview p = Some i)"
proof (cases e)
  case (PdfLoaded T now)
  then show ?thesis using assms tasks_loop[of now "s\<lparr>totalPages := T\<rparr>" n] by (auto split: if_splits)
next
  case (Rendered m ctx now)
  then show ?thesis using assms tasks_resolve[of m None now s n]
    by (auto simp: tasks_reject split: if_splits option.splits)
next
  case (RenderFailed m msg)
  then show ?thesis using assms by (auto simp: tasks_reject split: if_splits)
next
  case (OcrSettled m r now)
  show ?thesis
  proof (cases "tasks s m")
    case (Extracting j t)
    show ?thesis
    proof (cases "performOCR_settle r")
      case (Inl err)
      then show ?thesis using OcrSettled Extracting assms
        by (auto simp: tasks_reject split: if_splits)
    next
      case (Inr tx)
      let ?p = "\<lparr>pageNumber = m, extractedText = tx, imagePreview = Some j,
                 durationMs = Some (now - t)\<rparr>"
      define s1 where "s1 = (if \<not> isTerminated s
          then s\<lparr>docState := addPage (totalPages s) ?p (docState s)\<rparr> else s)"
      have s1: "tasks s1 = tasks s" "exec e s = resolve m (Some ?p) now s1"
        using OcrSettled Extracting Inr by (simp_all add: s1_def Let_def)
      then show ?thesis using tasks_resolve[of m "Some ?p" now s1 n] assms OcrSettled Extracting
        by (auto split: if_splits)
    qed
  qed (use OcrSettled assms in auto)
qed (use assms in \<open>auto split: if_splits\<close>)

lemma isExtracting_iff: "isExtracting t \<longleftrightarrow> (\<exists>i t0. t = Extracting i t0)"
  by (cases t) auto

lemma noExtract_step:
  assumes "API_KEY s = []" "\<forall>n. \<not> isExtracting (tasks s n)"
  shows "\<not> isExtracting (tasks (exec e s) m)"
proof
  assume "isExtracting (tasks (exec e s) m)"
  then obtain i t0 where ex: "tasks (exec e s) m = Extracting i t0"
    by (auto simp: isExtracting_iff)
  from step_Extracting[OF this] assms(2) have e: "e = Rendered m (Some i) t0"
    by (auto simp: isExtracting_iff)
  show False
  proof (cases "tasks s m = Rendering")
    case True
    show ?thesis
    proof (cases "isTerminated s")
      case t: True
      with e True have "exec e s = resolve m None t0 s" by simp
      with ex tasks_resolve[of m None t0 s m] show False by auto
    next
      case False
      with e True assms(1) have "exec e s = reject m
          ''API Key is missing. Please ensure process.env.API_KEY is configured.'' s"
        by (simp add: performOCR_enter_def)
      with ex show False by (simp add: tasks_reject)
    qed
  next
    case False
    with e have "exec e s = s" by simp
    with ex assms(2) show False by (auto simp: isExtracting_iff)
  qed
qed

section \<open>The batches of the loop\<close>










lemma length_pageNumbers [simp]: "length (pageNumbers T) = T"
  by (simp add: pageNumbers_def)

lemma distinct_batch: "distinct (batch s)"
  by (simp only: batch_upt distinct_upt)




section \<open>Progress\<close>

lemma completed_step:
  assumes "schedInv s" "docInv s" "status (docState s) = Completed"
  shows "exec e s = s"
proof -
  from assms(2,3) have r: "phase s = Returned" "totalPages s \<le> idx s" by (simp_all add: docInv_def)
  have nf: "\<not> inflight (tasks s n)" for n
  proof
    assume "inflight (tasks s n)"
    from schedInv_inflightD(1,2)[OF assms(1) this] r(2) show False by simp
  qed
  show ?thesis
  proof (cases e)
    case (Rendered n ctx now)
    then show ?thesis using nf[of n] by auto
  next
    case (RenderFailed n m)
    then show ?thesis using nf[of n] by auto
  next
    case (OcrSettled n r now)
    then show ?thesis using nf[of n] by (cases "tasks s n") auto
  qed (use r assms(3) in auto)
qed

lemma docState_loop:
  "docState (loop now s) = docState s \<or> status (docState (loop now s)) = Completed"
  by (simp add: loop_def finish_def Let_def)

lemma docState_resolve:
  "docState (resolve n r now s) = docState s \<or> status (docState (resolve n r now s)) = Completed"
proof -
  let ?s2 = "s\<lparr>tasks := (tasks s)(n := Resolved r),
                results := results s @ List.map_filter (\<lambda>k. resultOf (((tasks s)(n := Resolved r)) k))
                   (batch s),
                idx := idx s + concurrencyLimit\<rparr>"
  have "resolve n r now s = s\<lparr>tasks := (tasks s)(n := Resolved r)\<rparr> \<or>
        resolve n r now s = loop now ?s2"
    by (simp add: resolve_def Let_def resume_def)
  then show ?thesis using docState_loop[of now ?s2] by auto
qed

lemma pages_reject [simp]: "pages (docState (reject n m s)) = pages (docState s)"
  by (simp add: reject_def Let_def catchFailure_def)

lemma pages_step:
  "status (docState (exec e s)) = Completed \<or>
   length (pages (docState s)) \<le> length (pages (docState (exec e s)))"
proof (cases e)
  case (PdfLoaded T now)
  then show ?thesis using docState_loop[of now "s\<lparr>totalPages := T\<rparr>"] by auto
next
  case (PdfFailed m)
  then show ?thesis by (auto simp: catchFailure_def)
next
  case (Rendered n ctx now)
  then show ?thesis using docState_resolve[of n None now s]
    by (auto split: option.splits)
next
  case (RenderFailed n m)
  then show ?thesis by auto
next
  case (OcrSettled n r now)
  show ?thesis
  proof (cases "tasks s n")
    case (Extracting i t)
    show ?thesis
    proof (cases "performOCR_settle r")
      case (Inl err)
      then show ?thesis using OcrSettled Extracting by simp
    next
      case (Inr tx)
      let ?p = "\<lparr>pageNumber = n, extractedText = tx, imagePreview = Some i,
                 durationMs = Some (now - t)\<rparr>"
      define s1 where "s1 = (if \<not> isTerminated s
          then s\<lparr>docState := addPage (totalPages s) ?p (docState s)\<rparr> else s)"
      have s1: "exec e s = resolve n (Some ?p) now s1"
        using OcrSettled Extracting Inr by (simp add: s1_def Let_def)
      have "length (pages (docState s)) \<le> length (pages (docState s1))"
        by (simp add: s1_def addPage_def Let_def)
      then show ?thesis using docState_resolve[of n "Some ?p" now s1] s1 by auto
    qed
  qed (use OcrSettled in auto)
qed

lemma totalPages_loop [simp]: "totalPages (loop now s) = totalPages s"
  by (simp add: loop_def finish_def Let_def)

lemma totalPages_resolve [simp]: "totalPages (resolve n r now s) = totalPages s"
  by (simp add: resolve_def Let_def resume_def)

lemma totalPages_reject [simp]: "totalPages (reject n m s) = totalPages s"
  by (simp add: reject_def Let_def)

lemma totalPages_step: "totalPages (exec e s) = totalPages s \<or> phase s = Loading"
  by (cases e) (auto simp: Let_def split: option.splits task.splits sum.splits)

lemma isTerminated_step_eq [simp]: "isTerminated (exec e s) = isTerminated s"
  by (cases e) (auto simp: Let_def split: option.splits task.splits sum.splits)

lemma pages_bound:
  assumes "schedInv s" "docInv s"
  shows "length (pages (docState s)) \<le> totalPages s"
    and "1 \<le> n \<Longrightarrow> n \<le> totalPages s \<Longrightarrow> \<not> isResolved (tasks s n) \<Longrightarrow>
         length (pages (docState s)) < totalPages s"
proof -
  let ?ns = "map pageNumber (pages (docState s))"
  from assms(2) have d: "distinct ?ns"
    and b2: "\<And>p. p \<in> set (pages (docState s)) \<Longrightarrow> tasks s (pageNumber p) = Resolved (Some p)"
    by (simp_all add: docInv_def)
  have rng: "1 \<le> m \<and> m \<le> totalPages s \<and> isResolved (tasks s m)" if "m \<in> set ?ns" for m
  proof -
    from that obtain p where p: "p \<in> set (pages (docState s))" "m = pageNumber p" by auto
    from b2[OF p(1)] p(2) have t: "tasks s m = Resolved (Some p)" by simp
    then have "tasks s m \<noteq> NotStarted" by simp
    with assms(1) have "1 \<le> m \<and> m \<le> totalPages s" unfolding schedInv_def by blast
    with t show ?thesis by simp
  qed
  have len: "length (pages (docState s)) = card (set ?ns)"
    using d distinct_card[of ?ns] by simp
  have "set ?ns \<subseteq> {1..totalPages s}" using rng by auto
  then have "card (set ?ns) \<le> card {1..totalPages s}" by (intro card_mono) auto
  with len show "length (pages (docState s)) \<le> totalPages s" by simp
  assume n: "1 \<le> n" "n \<le> totalPages s" "\<not> isResolved (tasks s n)"
  have "set ?ns \<subseteq> {1..totalPages s} - {n}" using rng n(3) by auto
  then have "card (set ?ns) \<le> card ({1..totalPages s} - {n})" by (intro card_mono) auto
  also have "\<dots> = totalPages s - 1" using n(1,2) by simp
  finally show "length (pages (docState s)) < totalPages s" using len n(1,2) by simp
qed

lemma progress_formula:
  assumes "docInv s" "status (docState s) \<noteq> Completed"
  shows "progress (docState s) =
         (if isTerminated s then 0 else percent (length (pages (docState s))) (totalPages s))"
  using assms by (simp add: docInv_def)

lemma progress_range:
  assumes "schedInv s" "docInv s"
  shows "0 \<le> progress (docState s) \<and> progress (docState s) \<le> 100"
proof (cases "status (docState s) = Completed")
  case True
  with assms(2) show ?thesis by (simp add: docInv_def)
next
  case False
  from percent_le_100[OF pages_bound(1)[OF assms]] percent_nonneg
  show ?thesis by (simp add: progress_formula[OF assms(2) False])
qed

lemma pages_missing:
  assumes inv: "schedInv s" "docInv s"
    and nc: "status (docState s) \<noteq> Completed" and nt: "\<not> isTerminated s"
    and ne: "pages (docState s) \<noteq> []"
  shows "length (pages (docState s)) < totalPages s"
proof -
  from ne obtain p where p: "p \<in> set (pages (docState s))" by (cases "pages (docState s)") auto
  with inv(2) have started: "tasks s (pageNumber p) = Resolved (Some p)" by (simp add: docInv_def)
  have "\<exists>n. 1 \<le> n \<and> n \<le> totalPages s \<and> \<not> isResolved (tasks s n)"
  proof (cases "phase s")
    case Loading
    with inv(1) have "tasks s (pageNumber p) = NotStarted" by (simp add: schedInv_def)
    with started show ?thesis by simp
  next
    case Awaiting
    with inv(1) obtain n where n: "n \<in> set (batch s)" "\<not> isResolved (tasks s n)"
      unfolding schedInv_def by blast
    from n(1) have "1 \<le> n \<and> n \<le> totalPages s" by (simp add: set_batch)
    with n(2) show ?thesis by blast
  next
    case Returned
    with inv(2) nc nt have "(\<forall>n. tasks s n = NotStarted) \<or> (\<exists>n. isRejected (tasks s n))"
      by (simp add: docInv_def)
    with started obtain n where n: "isRejected (tasks s n)" by auto
    then have "tasks s n \<noteq> NotStarted" "\<not> isResolved (tasks s n)"
      by (cases "tasks s n"; simp)+
    with inv(1) show ?thesis unfolding schedInv_def by blast
  qed
  then show ?thesis using pages_bound(2)[OF inv] by blast
qed

lemma progress_mono:
  assumes inv: "schedInv s" "docInv s"
  shows "progress (docState s) \<le> progress (docState (exec e s))"
proof -
  let ?s' = "exec e s"
  have inv': "schedInv ?s'" "docInv ?s'"
    using inv by (simp_all add: schedInv_step docInv_step)
  show ?thesis
  proof (cases "status (docState s) = Completed")
    case True
    then show ?thesis by (simp add: completed_step[OF inv])
  next
    case nc: False
    show ?thesis
    proof (cases "status (docState ?s') = Completed")
      case True
      with inv'(2) have "progress (docState ?s') = 100" by (simp add: docInv_def)
      with progress_range[OF inv] show ?thesis by simp
    next
      case nc': False
      note f = progress_formula[OF inv(2) nc] and f' = progress_formula[OF inv'(2) nc']
      show ?thesis
      proof (cases "isTerminated s")
        case True
        with f f' show ?thesis by simp
      next
        case nt: False
        from pages_step[of e s] nc'
        have le: "length (pages (docState s)) \<le> length (pages (docState ?s'))" by simp
        show ?thesis
        proof (cases "totalPages ?s' = totalPages s")
          case True
          from percent_mono_n[OF le] f f' nt True show ?thesis by simp
        next
          case False
          with totalPages_step[of e s] have "phase s = Loading" by simp
          with inv(1) have ns: "\<And>n. tasks s n = NotStarted" by (simp add: schedInv_def)
          have "pages (docState s) = []"
          proof (cases "pages (docState s)")
            case (Cons q qs)
            then have "tasks s (pageNumber q) = Resolved (Some q)"
              using inv(2) by (simp add: docInv_def)
            with ns show ?thesis by simp
          qed simp
          with f f' nt percent_nonneg show ?thesis by simp
        qed
      qed
    qed
  qed
qed

section \<open>An invocation within the application\<close>

lemmas step_unfold = step.simps

declare step.simps [simp del]

lemma withLocals_component [simp]:
  "docState (withLocals c l) = docState c" "apiError (withLocals c l) = apiError c"
  "isTerminated (withLocals c l) = isTerminated c" "API_KEY (withLocals c l) = API_KEY c"
  by (cases l; simp)+

lemma localsOf_withLocals [simp]: "localsOf (withLocals c l) = l"
  by (cases l) (simp add: localsOf_def)

lemma withLocals_localsOf:
  "withLocals c (localsOf s) =
     s\<lparr>docState := docState c, apiError := apiError c, isTerminated := isTerminated c,
       API_KEY := API_KEY c\<rparr>"
  by (simp add: localsOf_def)

lemma withLocals_other:
  "withLocals c l =
     (withLocals c' l)\<lparr>docState := docState c, apiError := apiError c,
       isTerminated := isTerminated c, API_KEY := API_KEY c\<rparr>"
  by (cases l) simp

lemma view_component [simp]:
  "docState (view i a) = docState a" "apiError (view i a) = apiError a"
  "isTerminated (view i a) = isTerminated a" "API_KEY (view i a) = API_KEY a"
  by (simp_all add: view_def)

lemma store_component [simp]:
  "docState (store i s a) = docState s" "apiError (store i s a) = apiError s"
  "isTerminated (store i s a) = isTerminated s" "API_KEY (store i s a) = API_KEY a"
  "length (runs (store i s a)) = length (runs a)"
  by (simp_all add: store_def)

lemma view_store_same:
  assumes "i < length (runs a)" "API_KEY s = API_KEY a"
  shows "view i (store i s a) = s"
  using assms by (simp add: view_def store_def withLocals_localsOf)

lemma view_store_other:
  assumes "j \<noteq> i"
  shows "view j (store i s a) =
     (view j a)\<lparr>docState := docState s, apiError := apiError s, isTerminated := isTerminated s\<rparr>"
proof -
  have "runs (store i s a) ! j = runs a ! j" using assms by (simp add: store_def)
  then have "view j (store i s a) = withLocals (store i s a) (runs a ! j)" by (simp add: view_def)
  also have "\<dots> = (withLocals a (runs a ! j))\<lparr>docState := docState (store i s a),
      apiError := apiError (store i s a), isTerminated := isTerminated (store i s a),
      API_KEY := API_KEY (store i s a)\<rparr>"
    by (rule withLocals_other)
  finally show ?thesis by (simp add: view_def)
qed

lemma store_view:
  assumes "i < length (runs a)"
  shows "store i (view i a) a = a"
  using assms by (simp add: store_def view_def)

lemma view_stop: "view i (stopExtraction a) = stopExtraction (view i a)"
proof -
  have "runs (stopExtraction a) = runs a" by (simp add: stopExtraction_def)
  then have "view i (stopExtraction a) = withLocals (stopExtraction a) (runs a ! i)"
    by (simp add: view_def)
  also have "\<dots> = (withLocals a (runs a ! i))\<lparr>docState := docState (stopExtraction a),
      apiError := apiError (stopExtraction a), isTerminated := isTerminated (stopExtraction a),
      API_KEY := API_KEY (stopExtraction a)\<rparr>"
    by (rule withLocals_other)
  finally show ?thesis by (simp add: view_def stopExtraction_def)
qed

lemma stop_locals [simp]:
  "phase (stopExtraction s) = phase s" "tasks (stopExtraction s) = tasks s"
  "idx (stopExtraction s) = idx s" "totalPages (stopExtraction s) = totalPages s"
  "results (stopExtraction s) = results s"
  by (simp_all add: stopExtraction_def)

lemma runs_stop [simp]: "runs (stopExtraction a) = runs a"
  by (simp add: stopExtraction_def)

lemma runs_upload [simp]:
  "runs (handleFileUpload (Some f) now a) = runs a @ [(now, Loading, 0, 0, [], \<lambda>n. NotStarted)]"
  by (simp add: handleFileUpload_def)

lemma view_upload_old:
  assumes "j < length (runs a)"
  shows "view j (handleFileUpload (Some f) now a) =
     (view j a)\<lparr>docState := docState (handleFileUpload (Some f) now a), apiError := None,
       isTerminated := False\<rparr>"
proof -
  let ?a' = "handleFileUpload (Some f) now a"
  have "runs ?a' ! j = runs a ! j" using assms by (simp add: nth_append)
  then have "view j ?a' = withLocals ?a' (runs a ! j)" by (simp add: view_def)
  also have "\<dots> = (withLocals a (runs a ! j))\<lparr>docState := docState ?a',
      apiError := apiError ?a', isTerminated := isTerminated ?a', API_KEY := API_KEY ?a'\<rparr>"
    by (rule withLocals_other)
  finally show ?thesis by (simp add: view_def handleFileUpload_def)
qed

lemma view_upload_new:
  "view (length (runs a)) (handleFileUpload (Some f) now a) =
     \<lparr>docState = \<lparr>fileName = f, pages = [], fullText = [], status = Processing,
                   progress = 0, totalDurationMs = None, startTime = Some now\<rparr>,
      apiError = None, isTerminated = False, API_KEY = API_KEY a,
      fileStartTime = now, phase = Loading, totalPages = 0, idx = 0, results = [],
      tasks = (\<lambda>n. NotStarted)\<rparr>"
  by (simp add: view_def handleFileUpload_def)

lemma API_KEY_global [simp]:
  "API_KEY (step e a) = API_KEY a"
  by (cases e) (simp_all add: step_unfold handleFileUpload_def stopExtraction_def split: option.splits)

lemma view_store_exec [simp]:
  "i < length (runs a) \<Longrightarrow> view i (store i (exec t (view i a)) a) = exec t (view i a)"
  by (simp add: view_store_same)

lemma view_Turn_same:
  assumes "i < length (runs a)"
  shows "view i (step (Turn i t) a) = exec t (view i a)"
  using assms by (simp add: step_unfold)

lemma view_Turn_other:
  assumes "j \<noteq> i"
  shows "view j (step (Turn i t) a) =
     (view j a)\<lparr>docState := docState (step (Turn i t) a),
       apiError := apiError (step (Turn i t) a),
       isTerminated := isTerminated (step (Turn i t) a)\<rparr>"
proof (cases "i < length (runs a)")
  case True
  then show ?thesis using view_store_other[OF assms] by (simp add: step_unfold)
next
  case False
  then show ?thesis by (simp add: step_unfold)
qed

lemma length_runs_step:
  "length (runs (step e a)) =
     (if isUpload e \<and> status (docState a) = Idle then Suc (length (runs a)) else length (runs a))"
  by (cases e) (auto simp: step_unfold handleFileUpload_def split: option.splits)

lemma length_runs_mono: "length (runs a) \<le> length (runs (run evs a))"
proof (induction evs arbitrary: a)
  case (Cons e evs)
  have "length (runs a) \<le> length (runs (step e a))" by (simp add: length_runs_step)
  also have "\<dots> \<le> length (runs (run evs (step e a)))" by (rule Cons.IH)
  finally show ?case by simp
qed simp

lemma length_runs_quiet:
  "\<forall>e\<in>set evs. \<not> isUpload e \<Longrightarrow> length (runs (run evs a)) = length (runs a)"
  by (induction evs arbitrary: a) (simp_all add: length_runs_step)

lemma run_append: "run (xs @ ys) a = run ys (run xs a)"
  by (induction xs arbitrary: a) simp_all


lemma API_KEY_run [simp]: "API_KEY (run evs a) = API_KEY a"
  by (induction evs arbitrary: a) simp_all

section \<open>The scheduler of every invocation\<close>

lemma schedInv_component [simp]:
  "schedInv (s\<lparr>docState := d, apiError := ae, isTerminated := tm\<rparr>) = schedInv s"
  by (rule schedInv_cong) simp_all

lemma schedInv_fresh:
  "schedInv \<lparr>docState = d, apiError = ae, isTerminated = tm, API_KEY = k,
      fileStartTime = now, phase = Loading, totalPages = 0, idx = 0, results = [],
      tasks = (\<lambda>n. NotStarted)\<rparr>"
  by (simp add: schedInv_def concurrencyLimit_def)





section \<open>A run that has the component to itself\<close>

lemma idle_exec: "idle s \<Longrightarrow> exec t s = s"
proof (cases t)
  case (Rendered n ctx now)
  assume "idle s"
  then have "\<not> inflight (tasks s n)" by (simp add: idle_def)
  then have "tasks s n \<noteq> Rendering" by auto
  with Rendered show ?thesis by simp
next
  case (RenderFailed n m)
  assume "idle s"
  then have "\<not> inflight (tasks s n)" by (simp add: idle_def)
  then have "tasks s n \<noteq> Rendering" by auto
  with RenderFailed show ?thesis by simp
next
  case (OcrSettled n r now)
  assume "idle s"
  then have "\<not> inflight (tasks s n)" by (simp add: idle_def)
  with OcrSettled show ?thesis by (cases "tasks s n") auto
qed (auto simp: idle_def)

lemma idle_component [simp]:
  "idle (s\<lparr>docState := d, apiError := ae, isTerminated := tm\<rparr>) = idle s"
  by (simp add: idle_def)

lemma idle_stop [simp]: "idle (stopExtraction s) = idle s"
  by (simp add: idle_def stopExtraction_def)

lemma idle_step:
  assumes "j < length (runs a)" "idle (view j a)"
  shows "idle (view j (step e a))"
proof (cases e)
  case (Upload fopt now)
  show ?thesis
  proof (cases fopt)
    case None
    with Upload assms show ?thesis by (simp add: step_unfold handleFileUpload_def)
  next
    case (Some f)
    with Upload assms show ?thesis by (simp add: step_unfold view_upload_old)
  qed
next
  case Stop
  with assms show ?thesis by (simp add: step_unfold view_stop)
next
  case (Turn i t)
  show ?thesis
  proof (cases "j = i")
    case True
    with assms Turn show ?thesis by (simp add: view_Turn_same idle_exec)
  next
    case False
    with assms show ?thesis unfolding Turn by (simp add: view_Turn_other)
  qed
qed

lemma step_idle_Turn:
  assumes "j < length (runs a)" "idle (view j a)"
  shows "step (Turn j t) a = a"
  using assms by (simp add: step_unfold idle_exec store_view)

lemma runInv_fresh:
  "runInv \<lparr>docState = \<lparr>fileName = f, pages = [], fullText = [], status = Processing,
                   progress = 0, totalDurationMs = None, startTime = Some now\<rparr>,
      apiError = None, isTerminated = False, API_KEY = k,
      fileStartTime = now, phase = Loading, totalPages = 0, idx = 0, results = [],
      tasks = (\<lambda>n. NotStarted)\<rparr>"
  by (simp add: runInv_def schedInv_fresh docInv_def collect_def)

lemma solo_start:
  assumes "quiescent a"
  shows "solo (length (runs a)) (handleFileUpload (Some f) now a)"
  unfolding solo_def
proof (intro conjI allI impI)
  show "runInv (view (length (runs a)) (handleFileUpload (Some f) now a))"
    by (simp only: view_upload_new runInv_fresh)
next
  fix j assume "j < length (runs (handleFileUpload (Some f) now a))" "j \<noteq> length (runs a)"
  then have "j < length (runs a)" by simp
  with assms show "idle (view j (handleFileUpload (Some f) now a))"
    by (simp add: view_upload_old quiescent_def)
qed simp

lemma runInv_exec: "runInv s \<Longrightarrow> runInv (exec t s)"
  by (simp add: runInv_def schedInv_step docInv_step)

lemma solo_step:
  assumes "solo i a" "\<not> isUpload e"
  shows "solo i (step e a)"
proof -
  from assms(1) have i: "i < length (runs a)" and inv: "runInv (view i a)"
    and others: "\<And>j. j < length (runs a) \<Longrightarrow> j \<noteq> i \<Longrightarrow> idle (view j a)"
    by (simp_all add: solo_def)
  have len: "length (runs (step e a)) = length (runs a)"
    using assms(2) by (simp add: length_runs_step)
  have oth: "idle (view j (step e a))" if "j < length (runs (step e a))" "j \<noteq> i" for j
    using that others[of j] len by (simp add: idle_step)
  have "runInv (view i (step e a))"
  proof (cases e)
    case (Upload fopt now)
    with assms(2) have "fopt = None" by simp
    with Upload inv show ?thesis by (simp add: step_unfold handleFileUpload_def)
  next
    case Stop
    show ?thesis
    proof (cases "status (docState a) = Processing")
      case True
      with inv have "runInv (stopExtraction (view i a))"
        by (simp add: runInv_def docInv_stop)
      with Stop True show ?thesis by (simp add: step_unfold view_stop)
    next
      case False
      with Stop inv show ?thesis by (simp add: step_unfold)
    qed
  next
    case (Turn j t)
    show ?thesis
    proof (cases "j = i")
      case True
      with i inv Turn show ?thesis by (simp add: view_Turn_same runInv_exec)
    next
      case False
      show ?thesis
      proof (cases "j < length (runs a)")
        case True
        with others[of j] False have "step (Turn j t) a = a" by (simp add: step_idle_Turn)
        with inv Turn show ?thesis by simp
      next
        case False
        with inv Turn show ?thesis by (simp add: step_unfold)
      qed
    qed
  qed
  with i len oth show ?thesis by (simp add: solo_def)
qed

lemma solo_run:
  assumes "solo i a" "\<forall>e\<in>set evs. \<not> isUpload e"
  shows "solo i (run evs a)"
  using assms by (induction evs arbitrary: a) (simp_all add: solo_step)

lemma reach:
  assumes "quiescent s0" "\<forall>e\<in>set evs. \<not> isUpload e"
  shows "solo (length (runs s0)) (run evs (handleFileUpload (Some name) now s0))"
  using solo_run[OF solo_start[OF assms(1)] assms(2)] .

lemma soloD:
  assumes "solo i a"
  shows "i < length (runs a)" "schedInv (view i a)" "docInv (view i a)"
  using assms by (simp_all add: solo_def runInv_def)

lemma solo_other_step:
  assumes "solo i a" "j \<noteq> i"
  shows "step (Turn j t) a = a"
proof (cases "j < length (runs a)")
  case True
  with assms have "idle (view j a)" by (simp add: solo_def)
  with True show ?thesis by (rule step_idle_Turn)
qed (simp add: step_unfold)

section \<open>Cancellation and failure in the application\<close>

lemma exec_processing:
  assumes "status (docState (exec t s)) = Processing"
  shows "status (docState s) = Processing \<and> fullText (docState (exec t s)) = fullText (docState s)"
proof -
  have l: "status (docState (loop now s')) = Processing \<Longrightarrow>
      docState (loop now s') = docState s'" for now s'
    by (auto simp: loop_def finish_def Let_def split: if_splits)
  have r: "status (docState (resolve n r now s')) = Processing \<Longrightarrow>
      docState (resolve n r now s') = docState s'" for n r now s'
    using l[of now "s'\<lparr>tasks := (tasks s')(n := Resolved r),
        results := results s' @ List.map_filter (\<lambda>k. resultOf (((tasks s')(n := Resolved r)) k))
          (batch s'), idx := idx s' + concurrencyLimit\<rparr>"]
    by (auto simp: resolve_def resume_def Let_def split: if_splits)
  have j: "status (docState (reject n m s')) = Processing \<Longrightarrow>
      docState (reject n m s') = docState s'" for n m s'
    by (auto simp: reject_def catchFailure_def Let_def split: if_splits)
  show ?thesis
  proof (cases t)
    case (PdfLoaded T now)
    with assms l[of now "s\<lparr>totalPages := T\<rparr>"] show ?thesis by (auto split: if_splits)
  next
    case (PdfFailed m)
    with assms show ?thesis by (auto simp: catchFailure_def split: if_splits)
  next
    case (Rendered n ctx now)
    with assms r[of n None now s] j[of n _ s] show ?thesis
      by (auto split: if_splits option.splits)
  next
    case (RenderFailed n m)
    with assms j[of n m s] show ?thesis by (auto split: if_splits)
  next
    case (OcrSettled n rs now)
    show ?thesis
    proof (cases "tasks s n")
      case (Extracting i t0)
      show ?thesis
      proof (cases "performOCR_settle rs")
        case (Inl err)
        with assms OcrSettled Extracting j[of n err s] show ?thesis by auto
      next
        case (Inr tx)
        let ?p = "\<lparr>pageNumber = n, extractedText = tx, imagePreview = Some i,
                   durationMs = Some (now - t0)\<rparr>"
        define s1 where "s1 = (if \<not> isTerminated s
            then s\<lparr>docState := addPage (totalPages s) ?p (docState s)\<rparr> else s)"
        have e: "exec t s = resolve n (Some ?p) now s1"
          using OcrSettled Extracting Inr by (simp add: s1_def Let_def)
        have s1: "status (docState s1) = status (docState s)"
          "fullText (docState s1) = fullText (docState s)"
          by (simp_all add: s1_def addPage_def Let_def)
        from assms e r[of n "Some ?p" now s1] s1 show ?thesis by simp
      qed
    qed (use assms OcrSettled in auto)
  qed
qed

text \<open>While status is processing, \<open>fullText\<close> is empty, in every state after an upload.\<close>

lemma processing_step:
  assumes "status (docState a) = Processing \<longrightarrow> fullText (docState a) = []"
  shows "status (docState (step e a)) = Processing \<longrightarrow> fullText (docState (step e a)) = []"
proof (cases e)
  case (Upload fopt now)
  with assms show ?thesis by (auto simp: step_unfold handleFileUpload_def split: option.splits)
next
  case Stop
  with assms show ?thesis by (auto simp: step_unfold stopExtraction_def)
next
  case (Turn i t)
  show ?thesis
  proof (cases "i < length (runs a)")
    case True
    with Turn assms exec_processing[of t "view i a"] show ?thesis by (auto simp: step_unfold)
  next
    case False
    with Turn assms show ?thesis by (simp add: step_unfold)
  qed
qed

lemma processing_run:
  assumes "status (docState a) = Processing \<longrightarrow> fullText (docState a) = []"
  shows "status (docState (run evs a)) = Processing \<longrightarrow> fullText (docState (run evs a)) = []"
  using assms
proof (induction evs arbitrary: a)
  case (Cons e evs)
  from Cons.IH[OF processing_step[OF Cons.prems]] show ?case by simp
qed simp

lemma terminated_step:
  assumes "isTerminated a" "status (docState a) \<noteq> Processing" "\<not> throws e" "\<not> isUpload e"
  shows "docState (step e a) = docState a \<and> isTerminated (step e a)"
proof (cases e)
  case (Upload fopt now)
  with assms show ?thesis by (simp add: step_unfold handleFileUpload_def)
next
  case Stop
  with assms show ?thesis by (simp add: step_unfold)
next
  case (Turn i t)
  show ?thesis
  proof (cases "i < length (runs a)")
    case True
    with Turn assms step_terminated[of "view i a" t] show ?thesis by (simp add: step_unfold)
  next
    case False
    with Turn assms show ?thesis by (simp add: step_unfold)
  qed
qed

lemma terminated_run:
  assumes "isTerminated a" "status (docState a) \<noteq> Processing"
    "\<forall>e\<in>set evs. \<not> throws e \<and> \<not> isUpload e"
  shows "docState (run evs a) = docState a \<and> isTerminated (run evs a)"
  using assms
proof (induction evs arbitrary: a)
  case Nil
  then show ?case by simp
next
  case (Cons e evs)
  from Cons.prems have st: "docState (step e a) = docState a \<and> isTerminated (step e a)"
    by (intro terminated_step) auto
  with Cons.prems have "docState (run evs (step e a)) = docState (step e a) \<and>
      isTerminated (run evs (step e a))"
    by (intro Cons.IH) auto
  with st show ?case by simp
qed

lemma isTerminated_global:
  assumes "isTerminated a" "\<not> isUpload e"
  shows "isTerminated (step e a)"
proof (cases e)
  case (Upload fopt now)
  with assms show ?thesis by (simp add: step_unfold handleFileUpload_def)
next
  case Stop
  with assms show ?thesis by (simp add: step_unfold stopExtraction_def)
next
  case (Turn i t)
  with assms show ?thesis by (simp add: step_unfold)
qed

lemma isTerminated_run:
  assumes "isTerminated a" "\<forall>e\<in>set evs. \<not> isUpload e"
  shows "isTerminated (run evs a)"
  using assms by (induction evs arbitrary: a) (simp_all add: isTerminated_global)

text \<open>Once every invocation has returned, status error stays.\<close>

lemma error_global:
  assumes "status (docState a) = Error" "allReturned a"
  shows "status (docState (step e a)) = Error \<and> allReturned (step e a) \<and>
         fullText (docState (step e a)) = fullText (docState a)"
proof (cases e)
  case (Upload fopt now)
  with assms show ?thesis by (simp add: step_unfold)
next
  case Stop
  with assms show ?thesis by (simp add: step_unfold)
next
  case (Turn i t)
  show ?thesis
  proof (cases "i < length (runs a)")
    case True
    with assms(2) have "phase (view i a) = Returned" by (simp add: allReturned_def)
    from error_step[OF _ this, of t] assms(1)
    have e: "status (docState (exec t (view i a))) = Error" "phase (exec t (view i a)) = Returned"
      "fullText (docState (exec t (view i a))) = fullText (docState a)"
      by simp_all
    have "phase (view j (step (Turn i t) a)) = Returned" if "j < length (runs a)" for j
    proof (cases "j = i")
      case True
      with that e(2) show ?thesis by (simp add: view_Turn_same)
    next
      case False
      with that assms(2) show ?thesis by (simp add: view_Turn_other allReturned_def)
    qed
    then have "allReturned (step (Turn i t) a)"
      by (simp add: allReturned_def length_runs_step)
    with e True Turn show ?thesis by (simp add: step_unfold)
  next
    case False
    with Turn assms show ?thesis by (simp add: step_unfold)
  qed
qed

lemma error_run:
  assumes "status (docState a) = Error" "allReturned a"
  shows "status (docState (run evs a)) = Error \<and>
         fullText (docState (run evs a)) = fullText (docState a)"
  using assms
proof (induction evs arbitrary: a)
  case Nil
  then show ?case by simp
next
  case (Cons e evs)
  from error_global[OF Cons.prems, of e] Cons.IH[of "step e a"] show ?case by simp
qed

lemma fails_global:
  assumes "i < length (runs a)" "phase (view i a) = Awaiting" "fails (view i a) t"
  shows "status (docState (step (Turn i t) a)) = Error"
    "phase (view i (step (Turn i t) a)) = Returned"
    "pages (docState (step (Turn i t) a)) = pages (docState a)"
    "fullText (docState (step (Turn i t) a)) = fullText (docState a)"
    "progress (docState (step (Turn i t) a)) = progress (docState a)"
    "apiError (step (Turn i t) a) \<noteq> None"
  using fails_step[OF assms(2,3)] assms(1) by (simp_all add: step_unfold)

lemma allReturned_after:
  assumes "i < length (runs a)" "phase (view i (step (Turn i t) a)) = Returned"
    "\<forall>j<length (runs a). j \<noteq> i \<longrightarrow> phase (view j a) = Returned"
  shows "allReturned (step (Turn i t) a)"
  unfolding allReturned_def
proof (intro allI impI)
  fix j assume "j < length (runs (step (Turn i t) a))"
  then have j: "j < length (runs a)" by (simp add: length_runs_step)
  show "phase (view j (step (Turn i t) a)) = Returned"
  proof (cases "j = i")
    case True
    with assms(2) show ?thesis by simp
  next
    case False
    with j assms(3) show ?thesis by (simp add: view_Turn_other)
  qed
qed

section \<open>Null results and the missing key\<close>

lemma tasks_global_other:
  assumes "j \<noteq> i"
  shows "tasks (view j (step (Turn i t) a)) = tasks (view j a)"
  using assms by (simp add: view_Turn_other)

lemma tasks_global_quiet:
  assumes "j < length (runs a)" "\<forall>i t. e \<noteq> Turn i t"
  shows "tasks (view j (step e a)) = tasks (view j a)"
proof (cases e)
  case (Upload fopt now)
  show ?thesis
  proof (cases fopt)
    case None
    with Upload show ?thesis by (simp add: step_unfold handleFileUpload_def)
  next
    case (Some f)
    with Upload assms(1) show ?thesis by (simp add: step_unfold view_upload_old)
  qed
next
  case Stop
  then show ?thesis by (simp add: step_unfold view_stop)
next
  case (Turn i t)
  with assms show ?thesis by simp
qed

lemma noNull_global:
  assumes "i < length (runs a)" "\<not> isTerminated a" "\<not> noContext e"
    "\<forall>n. tasks (view i a) n \<noteq> Resolved None"
  shows "tasks (view i (step e a)) m \<noteq> Resolved None"
proof (cases e)
  case (Turn j t)
  show ?thesis
  proof (cases "j = i")
    case True
    with Turn assms noNull_step[of "view i a" t m] show ?thesis by (simp add: view_Turn_same)
  next
    case False
    with Turn assms(4) show ?thesis by (simp add: tasks_global_other)
  qed
qed (use assms in \<open>simp_all add: tasks_global_quiet\<close>)

lemma noNull_run:
  assumes "i < length (runs a)" "\<forall>e\<in>set evs. \<not> noContext e \<and> \<not> isUpload e"
    "\<not> isTerminated (run evs a)" "\<forall>n. tasks (view i a) n \<noteq> Resolved None"
  shows "tasks (view i (run evs a)) m \<noteq> Resolved None"
  using assms
proof (induction evs arbitrary: a)
  case Nil
  then show ?case by simp
next
  case (Cons e evs)
  from Cons.prems(2,3) have nt': "\<not> isTerminated (step e a)"
    using isTerminated_run[of "step e a" evs] by auto
  then have nt: "\<not> isTerminated a" using isTerminated_global[of a e] Cons.prems(2) by auto
  have "\<forall>n. tasks (view i (step e a)) n \<noteq> Resolved None"
    using noNull_global[OF Cons.prems(1) nt] Cons.prems(2,4) by auto
  moreover have "i < length (runs (step e a))" using Cons.prems(1) by (simp add: length_runs_step)
  ultimately show ?case using Cons.IH[of "step e a"] Cons.prems by simp
qed

lemma noExtract_global:
  assumes "API_KEY a = []"
    "\<forall>i. k \<le> i \<and> i < length (runs a) \<longrightarrow> (\<forall>n. \<not> isExtracting (tasks (view i a) n))"
    "k \<le> i" "i < length (runs (step e a))"
  shows "\<not> isExtracting (tasks (view i (step e a)) m)"
proof (cases "i < length (runs a)")
  case True
  with assms(2,3) have old: "\<forall>n. \<not> isExtracting (tasks (view i a) n)" by simp
  show ?thesis
  proof (cases e)
    case (Turn j t)
    show ?thesis
    proof (cases "j = i")
      case True
      with Turn \<open>i < length (runs a)\<close> noExtract_step[of "view i a" t m] assms(1) old
      show ?thesis by (simp add: view_Turn_same)
    next
      case False
      with Turn old show ?thesis by (simp add: tasks_global_other)
    qed
  qed (use True old in \<open>simp_all add: tasks_global_quiet\<close>)
next
  case False
  with assms(4) obtain f now where e: "e = Upload (Some f) now" "status (docState a) = Idle"
    "i = length (runs a)"
    by (cases e) (auto simp: step_unfold handleFileUpload_def split: option.splits if_splits)
  then show ?thesis by (simp add: step_unfold view_upload_new)
qed

lemma noExtract_run:
  assumes "API_KEY a = []"
    "\<forall>i. k \<le> i \<and> i < length (runs a) \<longrightarrow> (\<forall>n. \<not> isExtracting (tasks (view i a) n))"
    "k \<le> i" "i < length (runs (run evs a))"
  shows "\<not> isExtracting (tasks (view i (run evs a)) m)"
  using assms
proof (induction evs arbitrary: a)
  case Nil
  then show ?case by simp
next
  case (Cons e evs)
  have "\<forall>i. k \<le> i \<and> i < length (runs (step e a)) \<longrightarrow>
      (\<forall>n. \<not> isExtracting (tasks (view i (step e a)) n))"
    using noExtract_global[OF Cons.prems(1,2)] by blast
  with Cons.IH[of "step e a"] Cons.prems show ?case by simp
qed

section \<open>The trace of a page\<close>

lemma produced_cases:
  assumes "produced t s = Some p"
  shows "\<exists>n r t1 img t0. t = OcrSettled n r t1 \<and> tasks s n = Extracting img t0 \<and>
           pageNumber p = n \<and> durationMs p = Some (t1 - t0) \<and> imagePreview p = Some img"
proof (cases t)
  case (OcrSettled n r now)
  with assms show ?thesis
    by (cases "tasks s n"; cases "performOCR_settle r") auto
qed (use assms in auto)

lemma exec_produced:
  assumes "produced t s = Some p"
  shows "\<exists>n r now. t = OcrSettled n r now \<and>
           exec t s = resolve n (Some p) now
             (if \<not> isTerminated s then s\<lparr>docState := addPage (totalPages s) p (docState s)\<rparr>
              else s)"
proof (cases t)
  case (OcrSettled n r now)
  with assms show ?thesis
    by (cases "tasks s n"; cases "performOCR_settle r") (auto simp: Let_def)
qed (use assms in auto)

lemma exec_Resolved:
  assumes "tasks (exec t s) n = Resolved (Some p)"
  shows "tasks s n = Resolved (Some p) \<or> produced t s = Some p \<and> pageNumber p = n"
proof (cases t)
  case (PdfLoaded T now)
  then show ?thesis using assms tasks_loop[of now "s\<lparr>totalPages := T\<rparr>" n] by (auto split: if_splits)
next
  case (Rendered m ctx now)
  then show ?thesis using assms tasks_resolve[of m None now s n]
    by (auto simp: tasks_reject split: if_splits option.splits)
next
  case (RenderFailed m msg)
  then show ?thesis using assms by (auto simp: tasks_reject split: if_splits)
next
  case (OcrSettled m r now)
  show ?thesis
  proof (cases "tasks s m")
    case (Extracting j t0)
    show ?thesis
    proof (cases "performOCR_settle r")
      case (Inl err)
      then show ?thesis using OcrSettled Extracting assms
        by (auto simp: tasks_reject split: if_splits)
    next
      case (Inr tx)
      let ?p = "\<lparr>pageNumber = m, extractedText = tx, imagePreview = Some j,
                 durationMs = Some (now - t0)\<rparr>"
      define s1 where "s1 = (if \<not> isTerminated s
          then s\<lparr>docState := addPage (totalPages s) ?p (docState s)\<rparr> else s)"
      have s1: "tasks s1 = tasks s" "exec t s = resolve m (Some ?p) now s1"
        using OcrSettled Extracting Inr by (simp_all add: s1_def Let_def)
      have pr: "produced t s = Some ?p" using OcrSettled Extracting Inr by simp
      from s1 tasks_resolve[of m "Some ?p" now s1 n] assms pr show ?thesis
        by (auto split: if_splits)
    qed
  qed (use OcrSettled assms in auto)
qed (use assms in \<open>auto split: if_splits\<close>)

lemma results_loop: "set (results (loop now s)) = set (results s)"
  by (simp add: loop_def finish_def Let_def)

lemma pages_loop:
  "q \<in> set (pages (docState (loop now s))) \<Longrightarrow>
   q \<in> set (pages (docState s)) \<or> q \<in> set (results s)"
  by (auto simp: loop_def finish_def Let_def split: if_splits)

lemma resolved_settle:
  assumes "q \<in> set (List.map_filter (\<lambda>k. resultOf (((tasks s)(n := Resolved r)) k)) ms)"
  shows "(\<exists>m. tasks s m = Resolved (Some q)) \<or> r = Some q"
proof -
  from assms obtain m where m: "resultOf (((tasks s)(n := Resolved r)) m) = Some q"
    by (auto simp: List.map_filter_def)
  show ?thesis
  proof (cases "m = n")
    case True
    with m show ?thesis by simp
  next
    case False
    with m have "resultOf (tasks s m) = Some q" by simp
    then have "tasks s m = Resolved (Some q)" by (cases "tasks s m") auto
    then show ?thesis by blast
  qed
qed

lemma results_resolve:
  assumes "q \<in> set (results (resolve n r now s))"
  shows "q \<in> set (results s) \<or> (\<exists>m. tasks s m = Resolved (Some q)) \<or> r = Some q"
proof -
  let ?rs = "results s @ List.map_filter (\<lambda>k. resultOf (((tasks s)(n := Resolved r)) k)) (batch s)"
  let ?s2 = "s\<lparr>tasks := (tasks s)(n := Resolved r), results := ?rs,
                idx := idx s + concurrencyLimit\<rparr>"
  have "resolve n r now s = s\<lparr>tasks := (tasks s)(n := Resolved r)\<rparr> \<or>
        resolve n r now s = loop now ?s2"
    by (simp add: resolve_def Let_def resume_def)
  then show ?thesis
  proof
    assume "resolve n r now s = s\<lparr>tasks := (tasks s)(n := Resolved r)\<rparr>"
    with assms show ?thesis by simp
  next
    assume "resolve n r now s = loop now ?s2"
    with assms have "q \<in> set ?rs" by (simp add: results_loop)
    then show ?thesis using resolved_settle[of q s n r "batch s"] by auto
  qed
qed

lemma pages_resolve:
  assumes "q \<in> set (pages (docState (resolve n r now s)))"
  shows "q \<in> set (pages (docState s)) \<or> q \<in> set (results s) \<or>
         (\<exists>m. tasks s m = Resolved (Some q)) \<or> r = Some q"
proof -
  let ?rs = "results s @ List.map_filter (\<lambda>k. resultOf (((tasks s)(n := Resolved r)) k)) (batch s)"
  let ?s2 = "s\<lparr>tasks := (tasks s)(n := Resolved r), results := ?rs,
                idx := idx s + concurrencyLimit\<rparr>"
  have "resolve n r now s = s\<lparr>tasks := (tasks s)(n := Resolved r)\<rparr> \<or>
        resolve n r now s = loop now ?s2"
    by (simp add: resolve_def Let_def resume_def)
  then show ?thesis
  proof
    assume "resolve n r now s = s\<lparr>tasks := (tasks s)(n := Resolved r)\<rparr>"
    with assms show ?thesis by simp
  next
    assume "resolve n r now s = loop now ?s2"
    with assms pages_loop[of q now ?s2] have "q \<in> set (pages (docState s)) \<or> q \<in> set ?rs"
      by simp
    then show ?thesis using resolved_settle[of q s n r "batch s"] by auto
  qed
qed

lemma results_reject [simp]: "results (reject n m s) = results s"
  by (simp add: reject_def Let_def catchFailure_def)

lemma exec_results:
  assumes "q \<in> set (results (exec t s))"
  shows "q \<in> set (results s) \<or> (\<exists>m. tasks s m = Resolved (Some q)) \<or> produced t s = Some q"
proof (cases "produced t s")
  case (Some p)
  from exec_produced[OF this] obtain n r now where
    e: "exec t s = resolve n (Some p) now
          (if \<not> isTerminated s then s\<lparr>docState := addPage (totalPages s) p (docState s)\<rparr> else s)"
    by blast
  from assms results_resolve[of q n "Some p" now
      "if \<not> isTerminated s then s\<lparr>docState := addPage (totalPages s) p (docState s)\<rparr> else s"]
  show ?thesis unfolding e Some by (auto split: if_splits)
next
  case None
  show ?thesis
  proof (cases t)
    case (PdfLoaded T now)
    with assms results_loop[of now "s\<lparr>totalPages := T\<rparr>"] show ?thesis by (auto split: if_splits)
  next
    case (PdfFailed m)
    with assms show ?thesis by (auto simp: catchFailure_def split: if_splits)
  next
    case (Rendered n ctx now)
    with assms results_resolve[of q n None now s] show ?thesis
      by (auto split: if_splits option.splits)
  next
    case (RenderFailed n m)
    with assms show ?thesis by (auto split: if_splits)
  next
    case (OcrSettled n r now)
    with assms None show ?thesis
      by (cases "tasks s n"; cases "performOCR_settle r") auto
  qed
qed

lemma exec_pages:
  assumes "q \<in> set (pages (docState (exec t s)))"
  shows "q \<in> set (pages (docState s)) \<or> q \<in> set (results s) \<or>
         (\<exists>m. tasks s m = Resolved (Some q)) \<or> produced t s = Some q"
proof (cases "produced t s")
  case (Some p)
  from exec_produced[OF this] obtain n r now where
    e: "exec t s = resolve n (Some p) now
          (if \<not> isTerminated s then s\<lparr>docState := addPage (totalPages s) p (docState s)\<rparr> else s)"
    by blast
  from assms pages_resolve[of q n "Some p" now
      "if \<not> isTerminated s then s\<lparr>docState := addPage (totalPages s) p (docState s)\<rparr> else s"]
  show ?thesis unfolding e Some by (auto simp: addPage_def Let_def split: if_splits)
next
  case None
  show ?thesis
  proof (cases t)
    case (PdfLoaded T now)
    with assms pages_loop[of q now "s\<lparr>totalPages := T\<rparr>"] show ?thesis by (auto split: if_splits)
  next
    case (PdfFailed m)
    with assms show ?thesis by (auto simp: catchFailure_def split: if_splits)
  next
    case (Rendered n ctx now)
    with assms pages_resolve[of q n None now s] show ?thesis
      by (auto split: if_splits option.splits)
  next
    case (RenderFailed n m)
    with assms show ?thesis by (auto split: if_splits)
  next
    case (OcrSettled n r now)
    with assms None show ?thesis
      by (cases "tasks s n"; cases "performOCR_settle r") auto
  qed
qed

lemma spans_snoc: "spans evs i p \<Longrightarrow> spans (evs @ [e]) i p"
proof -
  assume "spans evs i p"
  then obtain img t0 r t1 before after where
    "evs = before @ Turn i (OcrSettled (pageNumber p) r t1) # after"
    "Turn i (Rendered (pageNumber p) (Some img) t0) \<in> set before"
    "durationMs p = Some (t1 - t0)" "imagePreview p = Some img"
    unfolding spans_def by blast
  then show ?thesis
    unfolding spans_def
    by (intro exI[of _ img] exI[of _ t0] exI[of _ r] exI[of _ t1] exI[of _ before]
        exI[of _ "after @ [e]"]) simp
qed

lemma spans_new:
  assumes "Turn i (Rendered n (Some img) t0) \<in> set evs" "pageNumber p = n"
    "durationMs p = Some (t1 - t0)" "imagePreview p = Some img"
  shows "spans (evs @ [Turn i (OcrSettled n r t1)]) i p"
  unfolding spans_def using assms
  by (intro exI[of _ img] exI[of _ t0] exI[of _ r] exI[of _ t1] exI[of _ evs] exI[of _ "[]"]) simp

lemma traceInv_step:
  assumes "traceInv evs a"
  shows "traceInv (evs @ [e]) (step e a)"
proof -
  from assms have
    A: "\<And>i n img t0. i < length (runs a) \<Longrightarrow> tasks (view i a) n = Extracting img t0 \<Longrightarrow>
          Turn i (Rendered n (Some img) t0) \<in> set evs"
    and B: "\<And>i n p. i < length (runs a) \<Longrightarrow> tasks (view i a) n = Resolved (Some p) \<Longrightarrow>
          pageNumber p = n \<and> spans evs i p"
    and C: "\<And>i q. i < length (runs a) \<Longrightarrow> q \<in> set (results (view i a)) \<Longrightarrow> spans evs i q"
    and D: "\<And>q. q \<in> set (pages (docState a)) \<Longrightarrow> \<exists>i<length (runs a). spans evs i q"
    unfolding traceInv_def by blast+
  note up = spans_snoc[of evs _ _ e]
  have same: "traceInv (evs @ [e]) a"
    unfolding traceInv_def
  proof (intro conjI allI impI ballI)
    fix i n img t0
    assume "i < length (runs a)" "tasks (view i a) n = Extracting img t0"
    from A[OF this] show "Turn i (Rendered n (Some img) t0) \<in> set (evs @ [e])" by simp
  next
    fix i n p
    assume "i < length (runs a)" "tasks (view i a) n = Resolved (Some p)"
    from B[OF this] up show "pageNumber p = n" "spans (evs @ [e]) i p" by simp_all
  next
    fix i q
    assume "i < length (runs a)" "q \<in> set (results (view i a))"
    from C[OF this] up show "spans (evs @ [e]) i q" by simp
  next
    fix q
    assume "q \<in> set (pages (docState a))"
    from D[OF this] up show "\<exists>i<length (runs a). spans (evs @ [e]) i q" by blast
  qed
  show ?thesis
  proof (cases e)
    case (Upload fopt now)
    show ?thesis
    proof (cases "fopt \<noteq> None \<and> status (docState a) = Idle")
      case False
      with Upload same show ?thesis by (auto simp: step_unfold handleFileUpload_def)
    next
      case True
      then obtain f where f: "fopt = Some f" by auto
      have st: "step e a = handleFileUpload (Some f) now a"
        using Upload True f by (simp add: step_unfold)
      have old: "tasks (view i (step e a)) = tasks (view i a)"
        "results (view i (step e a)) = results (view i a)" if "i < length (runs a)" for i
        using that by (simp_all add: st view_upload_old)
      have new: "tasks (view (length (runs a)) (step e a)) = (\<lambda>n. NotStarted)"
        "results (view (length (runs a)) (step e a)) = []"
        by (simp_all add: st view_upload_new)
      have pg: "pages (docState (step e a)) = []" by (simp add: st handleFileUpload_def)
      have len: "length (runs (step e a)) = Suc (length (runs a))" by (simp add: st)
      show ?thesis
        unfolding traceInv_def len pg
      proof (intro conjI allI impI ballI)
        fix i n img t0
        assume "i < Suc (length (runs a))" "tasks (view i (step e a)) n = Extracting img t0"
        then show "Turn i (Rendered n (Some img) t0) \<in> set (evs @ [e])"
          using A[of i n img t0] old(1)[of i] new(1) by (cases "i = length (runs a)") auto
      next
        fix i n p
        assume a: "i < Suc (length (runs a))" "tasks (view i (step e a)) n = Resolved (Some p)"
        then have "i < length (runs a)" "tasks (view i a) n = Resolved (Some p)"
          using old(1)[of i] new(1) by (cases "i = length (runs a)"; auto)+
        from B[OF this] up show "pageNumber p = n" "spans (evs @ [e]) i p" by auto
      next
        fix i q
        assume a: "i < Suc (length (runs a))" "q \<in> set (results (view i (step e a)))"
        then have "i < length (runs a)" "q \<in> set (results (view i a))"
          using old(2)[of i] new(2) by (cases "i = length (runs a)"; auto)+
        from C[OF this] up show "spans (evs @ [e]) i q" by auto
      qed simp
    qed
  next
    case Stop
    have "docState (step Stop a) = docState a \<or> pages (docState (step Stop a)) = pages (docState a)"
      by (simp add: step_unfold stopExtraction_def)
    then have pg: "pages (docState (step Stop a)) = pages (docState a)" by auto
    have loc: "tasks (view i (step Stop a)) = tasks (view i a)"
      "results (view i (step Stop a)) = results (view i a)" for i
      by (simp_all add: step_unfold view_stop)
    have len: "length (runs (step Stop a)) = length (runs a)" by (simp add: length_runs_step)
    from same show ?thesis unfolding Stop traceInv_def len pg loc .
  next
    case (Turn j t)
    show ?thesis
    proof (cases "j < length (runs a)")
      case False
      with Turn same show ?thesis by (simp add: step_unfold)
    next
      case j: True
      let ?a' = "step (Turn j t) a"
      let ?s = "view j a"
      have vj: "view j ?a' = exec t ?s" using j by (rule view_Turn_same)
      have oth: "tasks (view i ?a') = tasks (view i a)" "results (view i ?a') = results (view i a)"
        if "i \<noteq> j" for i
        using that by (simp_all add: view_Turn_other)
      have len: "length (runs ?a') = length (runs a)" by (simp add: length_runs_step)
      have pg: "docState ?a' = docState (exec t ?s)" using j by (simp add: step_unfold)
      have prod: "spans (evs @ [Turn j t]) j p \<and> pageNumber p = n"
        if "produced t ?s = Some p" "pageNumber p = n" for p n
      proof -
        from produced_cases[OF that(1)] obtain m r t1 img t0 where
          c: "t = OcrSettled m r t1" "tasks ?s m = Extracting img t0" "pageNumber p = m"
            "durationMs p = Some (t1 - t0)" "imagePreview p = Some img"
          by blast
        from A[OF j c(2)] have "Turn j (Rendered m (Some img) t0) \<in> set evs" .
        from spans_new[OF this c(3,4,5), of r] c(1) that(2) show ?thesis by simp
      qed
      have "traceInv (evs @ [Turn j t]) ?a'"
        unfolding traceInv_def len
      proof (intro conjI allI impI ballI)
        fix i n img t0
        assume a: "i < length (runs a)" "tasks (view i ?a') n = Extracting img t0"
        show "Turn i (Rendered n (Some img) t0) \<in> set (evs @ [Turn j t])"
        proof (cases "i = j")
          case True
          with a(2) vj have "tasks (exec t ?s) n = Extracting img t0" by simp
          from step_Extracting[OF this] A[OF j, of n img t0] True show ?thesis by auto
        next
          case False
          with a A[of i n img t0] oth(1)[of i] show ?thesis by simp
        qed
      next
        fix i n p
        assume a: "i < length (runs a)" "tasks (view i ?a') n = Resolved (Some p)"
        have "pageNumber p = n \<and> spans (evs @ [Turn j t]) i p"
        proof (cases "i = j")
          case True
          with a(2) vj have "tasks (exec t ?s) n = Resolved (Some p)" by simp
          from exec_Resolved[OF this] show ?thesis
          proof
            assume "tasks ?s n = Resolved (Some p)"
            from B[OF j this] True show ?thesis by (simp add: spans_snoc)
          next
            assume "produced t ?s = Some p \<and> pageNumber p = n"
            with prod[of p n] True show ?thesis by simp
          qed
        next
          case False
          with a B[of i n p] oth(1)[of i] show ?thesis by (simp add: spans_snoc)
        qed
        then show "pageNumber p = n" "spans (evs @ [Turn j t]) i p" by simp_all
      next
        fix i q
        assume a: "i < length (runs a)" "q \<in> set (results (view i ?a'))"
        show "spans (evs @ [Turn j t]) i q"
        proof (cases "i = j")
          case True
          with a(2) vj have "q \<in> set (results (exec t ?s))" by simp
          from exec_results[OF this] show ?thesis
          proof (elim disjE exE)
            assume "q \<in> set (results ?s)"
            from C[OF j this] True show ?thesis by (simp add: spans_snoc)
          next
            fix m assume "tasks ?s m = Resolved (Some q)"
            from B[OF j this] True show ?thesis by (simp add: spans_snoc)
          next
            assume "produced t ?s = Some q"
            with prod[of q "pageNumber q"] True show ?thesis by simp
          qed
        next
          case False
          with a C[of i q] oth(2)[of i] show ?thesis by (simp add: spans_snoc)
        qed
      next
        fix q
        assume "q \<in> set (pages (docState ?a'))"
        then have "q \<in> set (pages (docState (exec t ?s)))" by (simp add: pg)
        from exec_pages[OF this] show "\<exists>i<length (runs a). spans (evs @ [Turn j t]) i q"
        proof (elim disjE exE)
          assume "q \<in> set (pages (docState ?s))"
          then have "q \<in> set (pages (docState a))" by simp
          from D[OF this] show ?thesis using spans_snoc by blast
        next
          assume "q \<in> set (results ?s)"
          from C[OF j this] j show ?thesis using spans_snoc by blast
        next
          fix m assume "tasks ?s m = Resolved (Some q)"
          from B[OF j this] j show ?thesis using spans_snoc by blast
        next
          assume "produced t ?s = Some q"
          with prod[of q "pageNumber q"] j show ?thesis by blast
        qed
      qed
      with Turn show ?thesis by simp
    qed
  qed
qed

lemma traceInv_run: "traceInv evs0 a \<Longrightarrow> traceInv (evs0 @ evs) (run evs a)"
proof (induction evs arbitrary: evs0 a)
  case Nil
  then show ?case by simp
next
  case (Cons e evs)
  from Cons.IH[OF traceInv_step[OF Cons.prems, of e]] show ?case by simp
qed

lemma traceInv_initial: "traceInv [] (initial key)"
  by (simp add: traceInv_def initial_def)

section \<open>The batches an invocation dispatches\<close>




lemma starts_docState:
  "startsNone (s\<lparr>docState := d\<rparr>) s' = startsNone s s'"
  "startsBatch (s\<lparr>docState := d\<rparr>) s' = startsBatch s s'"
  by (simp_all add: startsNone_def startsBatch_def)











lemma chunkInv_component [simp]:
  "chunkInv ds (s\<lparr>docState := d, apiError := ae, isTerminated := tm\<rparr>) = chunkInv ds s"
  by (simp add: chunkInv_def)




section \<open>Progress in the application\<close>

lemma progress_global:
  assumes "solo i a" "e \<noteq> Stop" "\<not> isUpload e"
  shows "progress (docState a) \<le> progress (docState (step e a))"
proof (cases e)
  case (Upload fopt now)
  with assms(3) show ?thesis by (simp add: step_unfold handleFileUpload_def)
next
  case Stop
  with assms(2) show ?thesis by simp
next
  case (Turn j t)
  show ?thesis
  proof (cases "j = i")
    case True
    from soloD[OF assms(1)] progress_mono[of "view i a" t] Turn True show ?thesis
      by (simp add: step_unfold)
  next
    case False
    with assms(1) Turn show ?thesis by (simp add: solo_other_step)
  qed
qed

lemma okPage_view:
  assumes "i < length (runs a)"
  shows "view i (run (okPage i n tx t0 t1) a) =
           exec (OcrSettled n (Responds (Some tx)) t1) (exec (Rendered n (Some ''img'') t0) (view i a))"
    and "length (runs (run (okPage i n tx t0 t1) a)) = length (runs a)"
proof -
  let ?a1 = "step (Turn i (Rendered n (Some ''img'') t0)) a"
  have l1: "length (runs ?a1) = length (runs a)" by (simp add: length_runs_step)
  have v1: "view i ?a1 = exec (Rendered n (Some ''img'') t0) (view i a)"
    using assms by (rule view_Turn_same)
  have "view i (step (Turn i (OcrSettled n (Responds (Some tx)) t1)) ?a1) =
        exec (OcrSettled n (Responds (Some tx)) t1) (view i ?a1)"
    using assms l1 by (intro view_Turn_same) simp
  with v1 show "view i (run (okPage i n tx t0 t1) a) =
           exec (OcrSettled n (Responds (Some tx)) t1) (exec (Rendered n (Some ''img'') t0) (view i a))"
    by (simp add: okPage_def)
  show "length (runs (run (okPage i n tx t0 t1) a)) = length (runs a)"
    by (simp add: okPage_def length_runs_step)
qed

lemma inOrder_start:
  assumes "0 < T" "API_KEY s \<noteq> []" "phase s = Loading" "\<not> isTerminated s"
    "status (docState s) = Processing" "pages (docState s) = []" "idx s = 0"
    "\<And>n. tasks s n = NotStarted"
  shows "inOrder 0 (exec (PdfLoaded T t) s)" and "totalPages (exec (PdfLoaded T t) s) = T"
proof -
  let ?s = "s\<lparr>totalPages := T\<rparr>"
  let ?s' = "?s\<lparr>tasks := (\<lambda>n. if n \<in> set (batch ?s) then Rendering else tasks ?s n),
                phase := Awaiting\<rparr>"
  have "exec (PdfLoaded T t) s = loop t ?s" using assms(3) by simp
  also have "loop t ?s = ?s'"
    using assms(1,4,7)
    by (simp add: loop_def pageNumbers_upt processPage_enter_def cong del: if_weak_cong)
  finally have eq: "exec (PdfLoaded T t) s = ?s'" .
  have "inOrder 0 ?s'"
    using assms by (auto simp: inOrder_def set_batch concurrencyLimit_def)
  with eq show "inOrder 0 (exec (PdfLoaded T t) s)" by simp
  from eq show "totalPages (exec (PdfLoaded T t) s) = T" by simp
qed

lemma inOrder_step:
  assumes io: "inOrder k s" and lt: "Suc k < totalPages s" and tx: "tx \<noteq> []"
  shows "inOrder (Suc k) (exec (OcrSettled (Suc k) (Responds (Some tx)) t1)
           (exec (Rendered (Suc k) (Some ''img'') t0) s))"
    and "totalPages (exec (OcrSettled (Suc k) (Responds (Some tx)) t1)
           (exec (Rendered (Suc k) (Some ''img'') t0) s)) = totalPages s"
proof -
  let ?n = "Suc k"
  from io have f: "\<not> isTerminated s" "API_KEY s \<noteq> []" "status (docState s) = Processing"
    "phase s = Awaiting" "length (pages (docState s)) = k" "idx s \<le> k"
    "k < idx s + concurrencyLimit" "k < totalPages s"
    and rend: "\<And>n. k < n \<Longrightarrow> n \<le> idx s + concurrencyLimit \<Longrightarrow> n \<le> totalPages s \<Longrightarrow>
                 tasks s n = Rendering"
    and res: "\<And>n. idx s < n \<Longrightarrow> n \<le> k \<Longrightarrow> isResolved (tasks s n)"
    by (simp_all add: inOrder_def)
  have r: "tasks s ?n = Rendering" using rend[of ?n] f(7) lt by simp
  let ?s1 = "s\<lparr>tasks := (tasks s)(?n := Extracting ''img'' t0)\<rparr>"
  have s1: "exec (Rendered ?n (Some ''img'') t0) s = ?s1"
    using r f(1,2) by (simp add: performOCR_enter_def)
  define p where "p = \<lparr>pageNumber = ?n, extractedText = tx, imagePreview = Some ''img'',
             durationMs = Some (t1 - t0)\<rparr>"
  define d where "d = addPage (totalPages s) p (docState s)"
  let ?s2 = "s\<lparr>docState := d, tasks := (tasks s)(?n := Resolved (Some p))\<rparr>"
  have settle: "performOCR_settle (Responds (Some tx)) = Inr tx"
    using tx by (simp add: performOCR_settle_def performOCR_try_def)
  have s2: "exec (OcrSettled ?n (Responds (Some tx)) t1) ?s1 =
            (if allResolved ?s2 then resume t1 ?s2 else ?s2)"
    using f(1,4) settle by (simp add: Let_def resolve_def p_def d_def)
  have run: "exec (OcrSettled ?n (Responds (Some tx)) t1) (exec (Rendered ?n (Some ''img'') t0) s) =
      (if allResolved ?s2 then resume t1 ?s2 else ?s2)"
    by (simp only: s1 s2)
  have d: "status d = Processing" "length (pages d) = Suc k"
    using f(3,5) by (simp_all add: d_def addPage_def Let_def)
  have goal: "inOrder (Suc k) (if allResolved ?s2 then resume t1 ?s2 else ?s2) \<and>
        totalPages (if allResolved ?s2 then resume t1 ?s2 else ?s2) = totalPages s"
  proof (cases "?n = idx s + concurrencyLimit")
    case True
    have "allResolved ?s2"
      unfolding allResolved_iff
    proof (intro allI impI)
      fix m assume "m \<in> set (batch ?s2)"
      then have "idx s < m \<and> m \<le> ?n" using True by (simp add: set_batch)
      then show "isResolved (tasks ?s2 m)" using res[of m] by (cases "m = ?n") auto
    qed
    moreover
    let ?s3 = "?s2\<lparr>results := results ?s2 @
                   List.map_filter (\<lambda>n. resultOf (tasks ?s2 n)) (batch ?s2),
                 idx := idx ?s2 + concurrencyLimit\<rparr>"
    let ?s4 = "?s3\<lparr>tasks := (\<lambda>n. if n \<in> set (batch ?s3) then Rendering else tasks ?s3 n),
                  phase := Awaiting\<rparr>"
    have "resume t1 ?s2 = loop t1 ?s3" by (simp add: resume_def)
    moreover have "loop t1 ?s3 = ?s4"
      using lt True f(1)
      by (simp add: loop_def pageNumbers_upt processPage_enter_def cong del: if_weak_cong)
    moreover have "inOrder (Suc k) ?s4"
      using f(1,2) d lt True
      by (simp add: inOrder_def set_batch concurrencyLimit_def)
    ultimately show ?thesis by simp
  next
    case False
    with f(7) have lt2: "Suc ?n \<le> idx s + concurrencyLimit" by simp
    have "tasks s (Suc ?n) = Rendering" using rend[of "Suc ?n"] lt2 lt by simp
    then have "\<not> isResolved (tasks ?s2 (Suc ?n))" by simp
    moreover have "Suc ?n \<in> set (batch ?s2)" using lt lt2 f(6) by (simp add: set_batch)
    ultimately have "\<not> allResolved ?s2" unfolding allResolved_iff by blast
    moreover have "inOrder (Suc k) ?s2"
      unfolding inOrder_def
    proof (intro conjI allI impI)
      fix m assume "Suc k < m \<and> m \<le> idx ?s2 + concurrencyLimit \<and> m \<le> totalPages ?s2"
      then show "tasks ?s2 m = Rendering" using rend[of m] by simp
    next
      fix m assume "idx ?s2 < m \<and> m \<le> Suc k"
      then show "isResolved (tasks ?s2 m)" using res[of m] by (cases "m = ?n") auto
    qed (use f d lt False in simp_all)
    ultimately show ?thesis by simp
  qed
  from goal run show "inOrder (Suc k) (exec (OcrSettled (Suc k) (Responds (Some tx)) t1)
           (exec (Rendered (Suc k) (Some ''img'') t0) s))" by simp
  from goal run show "totalPages (exec (OcrSettled (Suc k) (Responds (Some tx)) t1)
           (exec (Rendered (Suc k) (Some ''img'') t0) s)) = totalPages s" by simp
qed

lemma firstPages_Suc: "firstPages T (Suc k) = firstPages T k @ okPage 0 (Suc k) ''x'' 1010 1020"
  by (simp add: firstPages_def)

lemma inOrder_run:
  assumes "k < T"
  shows "inOrder k (view 0 (run (firstPages T k) exStart)) \<and>
         totalPages (view 0 (run (firstPages T k) exStart)) = T \<and>
         length (runs (run (firstPages T k) exStart)) = 1"
  using assms
proof (induction k)
  case 0
  have r: "run (firstPages T 0) exStart = step (Turn 0 (PdfLoaded T 1001)) exStart"
    by (simp add: firstPages_def)
  have l: "length (runs exStart) = 1" by (simp add: exStart_def initial_def)
  have v: "view 0 exStart = \<lparr>docState = \<lparr>fileName = ''doc.pdf'', pages = [], fullText = [],
                   status = Processing, progress = 0, totalDurationMs = None,
                   startTime = Some 1000\<rparr>,
      apiError = None, isTerminated = False, API_KEY = ''key'',
      fileStartTime = 1000, phase = Loading, totalPages = 0, idx = 0, results = [],
      tasks = (\<lambda>n. NotStarted)\<rparr>"
    using view_upload_new[of "initial ''key''" "''doc.pdf''" 1000]
    by (simp add: exStart_def initial_def)
  have v0: "view 0 (run (firstPages T 0) exStart) = exec (PdfLoaded T 1001) (view 0 exStart)"
    unfolding r using l by (intro view_Turn_same) simp
  from 0 inOrder_start[of T "view 0 exStart" 1001] show ?case
    unfolding v0 by (simp add: v r length_runs_step l)
next
  case (Suc k)
  let ?a = "run (firstPages T k) exStart"
  from Suc have ih: "inOrder k (view 0 ?a)" "totalPages (view 0 ?a) = T" "length (runs ?a) = 1"
    by simp_all
  have r: "run (firstPages T (Suc k)) exStart = run (okPage 0 (Suc k) ''x'' 1010 1020) ?a"
    by (simp only: firstPages_Suc run_append)
  from ih(3) have z: "0 < length (runs ?a)" by simp
  from Suc.prems ih(2) have "Suc k < totalPages (view 0 ?a)" by simp
  from inOrder_step[OF ih(1) this, of "''x''" 1020 1010] ih(2,3) show ?case
    unfolding r okPage_view(1)[OF z] okPage_view(2)[OF z] by simp
qed

lemma firstPages_quiet: "\<forall>e\<in>set (firstPages T k). \<not> isUpload e"
  by (auto simp: firstPages_def okPage_def)

lemma quiescent_initial: "quiescent (initial key)"
  by (simp add: quiescent_def initial_def)

lemma firstPages_progress:
  assumes "k < T"
  shows "status (docState (run (firstPages T k) exStart)) = Processing"
    "length (pages (docState (run (firstPages T k) exStart))) = k"
    "progress (docState (run (firstPages T k) exStart)) = percent k T"
    "phase (view 0 (run (firstPages T k) exStart)) = Awaiting"
    "tasks (view 0 (run (firstPages T k) exStart)) (Suc k) = Rendering"
proof -
  let ?a = "run (firstPages T k) exStart"
  from inOrder_run[OF assms] have io: "inOrder k (view 0 ?a)" and T: "totalPages (view 0 ?a) = T"
    by simp_all
  from io show st: "status (docState ?a) = Processing"
    and len: "length (pages (docState ?a)) = k"
    and "phase (view 0 ?a) = Awaiting"
    by (simp_all add: inOrder_def)
  from io T assms show "tasks (view 0 ?a) (Suc k) = Rendering"
    by (simp add: inOrder_def concurrencyLimit_def)
  have "solo 0 ?a"
    using reach[OF quiescent_initial firstPages_quiet, of "''key''" T k "''doc.pdf''" 1000]
    by (simp add: exStart_def initial_def)
  from soloD(3)[OF this] have "docInv (view 0 ?a)" .
  from progress_formula[OF this] st io T len
  show "progress (docState ?a) = percent k T" by (simp add: inOrder_def)
qed

section \<open>The document of a run that has the component to itself\<close>

lemma alone_sorted_distinct:
  assumes "quiescent s0" "\<forall>e\<in>set evs. \<not> isUpload e"
  shows "sorted (map pageNumber (pages (docState (run evs (handleFileUpload (Some name) now s0)))))"
    and "distinct (map pageNumber (pages (docState (run evs (handleFileUpload (Some name) now s0)))))"
  using soloD(3)[OF reach[OF assms, of name now]] by (simp_all add: docInv_def)

lemma alone_fullText:
  assumes "quiescent s0" "\<forall>e\<in>set evs. \<not> isUpload e"
    "status (docState (run evs (handleFileUpload (Some name) now s0))) = Completed"
  shows "fullText (docState (run evs (handleFileUpload (Some name) now s0))) =
         jsJoin SEP (map extractedText (pages (docState (run evs (handleFileUpload (Some name) now s0)))))"
  using soloD(3)[OF reach[OF assms(1,2), of name now]] assms(3) by (simp add: docInv_def)

lemma sorted_addPage:
  "sorted (map pageNumber (pages d)) \<Longrightarrow> sorted (map pageNumber (pages (addPage T p d)))"
  by (simp add: addPage_def Let_def)

section \<open>The pages are sorted in every state\<close>

lemma sorted_loop:
  "sorted (map pageNumber (pages (docState s))) \<Longrightarrow>
   sorted (map pageNumber (pages (docState (loop now s))))"
  by (simp add: loop_def finish_def Let_def)

lemma sorted_resolve:
  "sorted (map pageNumber (pages (docState s))) \<Longrightarrow>
   sorted (map pageNumber (pages (docState (resolve n r now s))))"
  by (simp add: resolve_def resume_def Let_def sorted_loop)

lemma sorted_exec:
  assumes "sorted (map pageNumber (pages (docState s)))"
  shows "sorted (map pageNumber (pages (docState (exec t s))))"
proof (cases t)
  case (PdfLoaded T now)
  with assms show ?thesis by (simp add: sorted_loop)
next
  case (PdfFailed m)
  with assms show ?thesis by (simp add: catchFailure_def)
next
  case (Rendered n ctx now)
  with assms show ?thesis by (auto simp: sorted_resolve split: option.splits)
next
  case (RenderFailed n m)
  with assms show ?thesis by simp
next
  case (OcrSettled n r now)
  show ?thesis
  proof (cases "tasks s n")
    case (Extracting i t0)
    with OcrSettled assms show ?thesis
      by (cases "performOCR_settle r") (auto simp: Let_def intro!: sorted_resolve sorted_addPage)
  qed (use OcrSettled assms in auto)
qed

lemma sorted_global:
  assumes "sorted (map pageNumber (pages (docState a)))"
  shows "sorted (map pageNumber (pages (docState (step e a))))"
proof (cases e)
  case (Upload fopt now)
  with assms show ?thesis by (auto simp: step_unfold handleFileUpload_def split: option.splits)
next
  case Stop
  with assms show ?thesis by (simp add: step_unfold stopExtraction_def)
next
  case (Turn i t)
  with assms sorted_exec[of "view i a" t] show ?thesis by (simp add: step_unfold)
qed

lemma always_sorted: "sorted (map pageNumber (pages (docState (run evs (initial key)))))"
proof -
  have "sorted (map pageNumber (pages (docState a))) \<Longrightarrow>
        sorted (map pageNumber (pages (docState (run evs a))))" for a
    by (induction evs arbitrary: a) (simp_all add: sorted_global)
  then show ?thesis by (simp add: initial_def)
qed

section \<open>The claims\<close>

text \<open>
  The states of the application are those that \<open>run\<close> reaches from \<open>initial key\<close>. The
  file input is shown again when the user terminates a run, while the handler of that
  run and its page tasks are still pending; a file chosen then starts an invocation
  beside them, and all of them read the one cancellation flag, which the start of the
  new invocation clears. A state is quiescent when no invocation is pending in it. A
  run started in a quiescent state has the component to itself until the next file is
  chosen.
\<close>

subsection \<open>Cancellation\<close>

text \<open>
  C1, as the code has it. When the Terminate button is pressed while status is
  processing, the state that results has status idle, progress 0 and an empty
  \<open>fullText\<close>, and the cancellation flag is set; \<open>pages\<close> is left as it was (the pages
  accumulated so far are kept in the state, not cleared). After that, as long as no
  file is chosen, turns in which nothing throws (a late page that succeeds among them,
  of this or of an earlier invocation) leave the document state as it is: nothing is
  added to \<open>pages\<close> and the status stays idle.
\<close>

theorem cancel_keeps_pages:
  fixes evs name now s0 late
  defines "s \<equiv> run evs (handleFileUpload (Some name) now s0)"
  assumes "status (docState s) = Processing"
    and "\<forall>e\<in>set late. \<not> throws e \<and> \<not> isUpload e"
  shows "status (docState (step Stop s)) = Idle \<and>
         progress (docState (step Stop s)) = 0 \<and>
         fullText (docState (step Stop s)) = [] \<and>
         pages (docState (step Stop s)) = pages (docState s) \<and>
         isTerminated (step Stop s) \<and>
         docState (run late (step Stop s)) = docState (step Stop s)"
proof -
  have "status (docState (handleFileUpload (Some name) now s0)) = Processing \<longrightarrow>
        fullText (docState (handleFileUpload (Some name) now s0)) = []"
    by (simp add: handleFileUpload_def)
  from processing_run[OF this, of evs] assms(2) have ft: "fullText (docState s) = []"
    by (simp add: s_def)
  have st: "step Stop s = stopExtraction s" using assms(2) by (simp add: step_unfold)
  have "isTerminated (stopExtraction s)" "status (docState (stopExtraction s)) \<noteq> Processing"
    by (simp_all add: stopExtraction_def)
  from terminated_run[OF this assms(3)] ft st show ?thesis
    by (simp add: stopExtraction_def)
qed

text \<open>Page 1 of 2 has succeeded when the user stops: page 1 is still in \<open>pages\<close>.\<close>

theorem cancel_keeps_pages_counterexample:
  "status (docState (run exOneDone exStart)) = Processing \<and>
   status (docState (step Stop (run exOneDone exStart))) = Idle \<and>
   map pageNumber (pages (docState (step Stop (run exOneDone exStart)))) = [1]"
  by code_simp

theorem cancel_keeps_pages_witness:
  "status (docState (run exOneDone exStart)) = Processing \<and>
   status (docState (run exLate (step Stop (run exOneDone exStart)))) = Idle \<and>
   map pageNumber (pages (docState (run exLate (step Stop (run exOneDone exStart))))) = [1] \<and>
   fullText (docState (run exLate (step Stop (run exOneDone exStart)))) = []"
proof -
  have p: "status (docState (run exOneDone exStart)) = Processing" by code_simp
  have l: "\<forall>e\<in>set exLate. \<not> throws e \<and> \<not> isUpload e" by code_simp
  have m: "map pageNumber (pages (docState (run exOneDone exStart))) = [1]" by code_simp
  from cancel_keeps_pages[of exOneDone "''doc.pdf''" 1000 "initial ''key''" exLate] p l m
  show ?thesis by (simp add: exStart_def)
qed

subsection \<open>Failure\<close>

text \<open>
  C2, as the code has it, for a run that has the component to itself. When a page task
  of the run throws while the handler awaits its batch, whatever the number of pages
  that have succeeded, the status becomes error with an error message set, \<open>fullText\<close>
  is empty and \<open>pages\<close> is left as it was (the accumulated pages are kept in the
  state, not discarded); from then on the status stays error and \<open>fullText\<close> stays
  empty, so the run never shows as completed.
\<close>

theorem failure_keeps_pages:
  fixes evs name now s0 t later
  defines "i \<equiv> length (runs s0)"
  defines "s \<equiv> run evs (handleFileUpload (Some name) now s0)"
  assumes "quiescent s0" and "\<forall>e\<in>set evs. \<not> isUpload e"
    and "phase (view i s) = Awaiting" and "fails (view i s) t"
  shows "status (docState (step (Turn i t) s)) = Error \<and>
         apiError (step (Turn i t) s) \<noteq> None \<and>
         fullText (docState (step (Turn i t) s)) = [] \<and>
         pages (docState (step (Turn i t) s)) = pages (docState s) \<and>
         status (docState (run later (step (Turn i t) s))) = Error \<and>
         fullText (docState (run later (step (Turn i t) s))) = []"
proof -
  have so: "solo i s" unfolding i_def s_def using assms(3,4) by (rule reach)
  note inv = soloD[OF so]
  from inv(2,3) assms(5) have "status (docState (view i s)) \<noteq> Completed"
    by (intro docInv_notCompleted[of "view i s" 0]) auto
  with inv(3) have ft: "fullText (docState s) = []" by (simp add: docInv_def)
  note f = fails_global[OF inv(1) assms(5,6)]
  have "\<forall>j<length (runs s). j \<noteq> i \<longrightarrow> phase (view j s) = Returned"
    using so by (simp add: solo_def idle_def)
  with inv(1) f(2) have "allReturned (step (Turn i t) s)" by (intro allReturned_after)
  from error_run[OF f(1) this, of later] f ft show ?thesis by simp
qed

text \<open>Page 1 of 2 has succeeded when page 2 is rate limited: page 1 is still in \<open>pages\<close>.\<close>

theorem failure_keeps_pages_counterexample:
  "phase (view 0 (run exOneDone exStart)) = Awaiting \<and>
   fails (view 0 (run exOneDone exStart)) exFailure \<and>
   status (docState (step (Turn 0 exFailure) (run exOneDone exStart))) = Error \<and>
   apiError (step (Turn 0 exFailure) (run exOneDone exStart)) =
     Some ''Rate limit exceeded. Please wait a moment.'' \<and>
   map pageNumber (pages (docState (step (Turn 0 exFailure) (run exOneDone exStart)))) = [1]"
  by code_simp

theorem failure_keeps_pages_witness:
  "phase (view 0 (run exOneDone exStart)) = Awaiting \<and>
   fails (view 0 (run exOneDone exStart)) exFailure \<and>
   status (docState (run exLate (step (Turn 0 exFailure) (run exOneDone exStart)))) = Error \<and>
   fullText (docState (step (Turn 0 exFailure) (run exOneDone exStart))) = [] \<and>
   map extractedText (pages (docState (step (Turn 0 exFailure) (run exOneDone exStart)))) = [''A'']"
proof -
  have p: "phase (view 0 (run exOneDone exStart)) = Awaiting" by code_simp
  have l: "fails (view 0 (run exOneDone exStart)) exFailure" by code_simp
  have m: "map extractedText (pages (docState (run exOneDone exStart))) = [''A'']" by code_simp
  have q: "quiescent (initial ''key'')" by (rule quiescent_initial)
  have u: "\<forall>e\<in>set exOneDone. \<not> isUpload e" by code_simp
  have z: "length (runs (initial ''key'')) = 0" by (simp add: initial_def)
  from failure_keeps_pages[of "initial ''key''" exOneDone "''doc.pdf''" 1000 exFailure exLate]
    p l m q u
  show ?thesis by (simp add: exStart_def z)
qed

subsection \<open>Every page of a completed run\<close>

text \<open>
  C3, as the code has it, for a run that has the component to itself. When the run
  reaches completed and no page task found the canvas without a 2D context (the one
  way a task returns null without a cancellation), \<open>pages\<close> has exactly \<open>totalPages\<close>
  entries and the entry at index \<open>k\<close> has page number \<open>k + 1\<close>, whatever the order in
  which the tasks completed. Such a run was not cancelled and none of its page tasks
  threw.
\<close>

theorem completed_has_every_page:
  fixes evs name now s0
  defines "i \<equiv> length (runs s0)"
  defines "s \<equiv> run evs (handleFileUpload (Some name) now s0)"
  assumes "quiescent s0" and "\<forall>e\<in>set evs. \<not> isUpload e \<and> \<not> noContext e"
    and "status (docState s) = Completed"
  shows "length (pages (docState s)) = totalPages (view i s) \<and>
         map pageNumber (pages (docState s)) = [1..<Suc (totalPages (view i s))] \<and>
         (\<forall>k<totalPages (view i s). pageNumber (pages (docState s) ! k) = k + 1) \<and>
         \<not> isTerminated s \<and> (\<forall>n. \<not> isRejected (tasks (view i s) n))"
proof -
  let ?v = "view i s"
  let ?a0 = "handleFileUpload (Some name) now s0"
  have so: "solo i s" unfolding i_def s_def using assms(3,4) by (intro reach) auto
  note inv = soloD[OF so]
  from inv(3) assms(5) have c: "\<not> isTerminated s" "pages (docState s) = collect ?v"
    "totalPages ?v \<le> idx ?v"
    by (simp_all add: docInv_def)
  from inv(3) have b1: "\<And>n p. tasks ?v n = Resolved (Some p) \<Longrightarrow> pageNumber p = n"
    by (simp add: docInv_def)
  have nn: "tasks ?v m \<noteq> Resolved None" for m
    unfolding s_def
  proof (rule noNull_run)
    show "i < length (runs ?a0)" by (simp add: i_def)
    show "\<forall>e\<in>set evs. \<not> noContext e \<and> \<not> isUpload e" using assms(4) by blast
    show "\<not> isTerminated (run evs ?a0)" using c(1) by (simp add: s_def)
    show "\<forall>n. tasks (view i ?a0) n \<noteq> Resolved None" by (simp add: i_def view_upload_new)
  qed
  have res: "isResolved (tasks ?v n)" if "1 \<le> n" "n \<le> totalPages ?v" for n
    using that c(3) inv(2) unfolding schedInv_def by (metis le_trans)
  have some: "resultOf (tasks ?v n) \<noteq> None" if "n \<in> set [1..<Suc (totalPages ?v)]" for n
  proof -
    from that have "1 \<le> n" "n \<le> totalPages ?v" by auto
    from res[OF this] show ?thesis using nn[of n] by (cases "tasks ?v n") auto
  qed
  have "map pageNumber (collect ?v) =
        filter (\<lambda>n. resultOf (tasks ?v n) \<noteq> None) [1..<Suc (min (idx ?v) (totalPages ?v))]"
    using b1 by (simp only: collect_pageNumbers take_pageNumbers)
  also have "min (idx ?v) (totalPages ?v) = totalPages ?v" using c(3) by simp
  also have "filter (\<lambda>n. resultOf (tasks ?v n) \<noteq> None) [1..<Suc (totalPages ?v)] =
        [1..<Suc (totalPages ?v)]"
    by (rule filter_all) (rule some)
  finally have m: "map pageNumber (pages (docState s)) = [1..<Suc (totalPages ?v)]"
    using c(2) by simp
  from arg_cong[OF m, of length] have l: "length (pages (docState s)) = totalPages ?v"
    by (simp del: upt_Suc)
  have "pageNumber (pages (docState s) ! k) = k + 1" if "k < totalPages ?v" for k
  proof -
    have "pageNumber (pages (docState s) ! k) = map pageNumber (pages (docState s)) ! k"
      using that l by simp
    also have "\<dots> = [1..<Suc (totalPages ?v)] ! k" by (simp only: m)
    also have "\<dots> = k + 1" using that by (simp del: upt_Suc)
    finally show ?thesis .
  qed
  moreover have "\<not> isRejected (tasks ?v n)" for n
  proof
    assume r: "isRejected (tasks ?v n)"
    then have "tasks ?v n \<noteq> NotStarted" by (cases "tasks ?v n") auto
    with inv(2) have "1 \<le> n" "n \<le> totalPages ?v" unfolding schedInv_def by blast+
    from res[OF this] r show False by (cases "tasks ?v n") auto
  qed
  ultimately show ?thesis using m l c(1) by blast
qed

text \<open>
  Page 2 of 3 gets no context: the run completes, not cancelled and with no error, with
  pages 1 and 3 only.
\<close>

theorem completed_has_every_page_counterexample:
  "status (docState (run exNoContext exStart)) = Completed \<and>
   \<not> isTerminated (run exNoContext exStart) \<and>
   apiError (run exNoContext exStart) = None \<and>
   totalPages (view 0 (run exNoContext exStart)) = 3 \<and>
   map pageNumber (pages (docState (run exNoContext exStart))) = [1, 3]"
  by code_simp

theorem completed_has_every_page_witness:
  "status (docState (run exCAB exStart)) = Completed \<and>
   length (pages (docState (run exCAB exStart))) = 3 \<and>
   pageNumber (pages (docState (run exCAB exStart)) ! 0) = 1 \<and>
   pageNumber (pages (docState (run exCAB exStart)) ! 1) = 2 \<and>
   pageNumber (pages (docState (run exCAB exStart)) ! 2) = 3"
proof -
  have c: "status (docState (run exCAB exStart)) = Completed" by code_simp
  have n: "\<forall>e\<in>set exCAB. \<not> isUpload e \<and> \<not> noContext e" by code_simp
  have t: "totalPages (view 0 (run exCAB exStart)) = 3" by code_simp
  have q: "quiescent (initial ''key'')" by (rule quiescent_initial)
  have z: "length (runs (initial ''key'')) = 0" by (simp add: initial_def)
  from completed_has_every_page[of "initial ''key''" exCAB "''doc.pdf''" 1000] c n t q
  show ?thesis by (simp add: exStart_def z)
qed

subsection \<open>The joined text\<close>

text \<open>
  C4 fails when a run is cancelled and a file is chosen while a call of the cancelled
  run is pending. The start of the new invocation clears the cancellation flag, so the
  pending page of the cancelled run is added to \<open>pages\<close> when it succeeds, and the
  handler of the cancelled run goes on past its checks and sets status completed with
  the text of its own pages. Page 2 of the new run then succeeds and is added. In the
  state reached, status is completed and the file name is that of the new file, \<open>pages\<close>
  holds pages 1, 2, 2 with the texts A, oldB, B, and \<open>fullText\<close> is A and oldB joined:
  it is not the texts of \<open>pages\<close> joined with the separator.
\<close>

theorem fullText_not_joined:
  "status (docState (run exOverlap (initial ''key''))) = Completed \<and>
   fileName (docState (run exOverlap (initial ''key''))) = ''new.pdf'' \<and>
   map pageNumber (pages (docState (run exOverlap (initial ''key'')))) = [1, 2, 2] \<and>
   map extractedText (pages (docState (run exOverlap (initial ''key'')))) =
     [''A'', ''oldB'', ''B''] \<and>
   fullText (docState (run exOverlap (initial ''key''))) = ''A'' @ SEP @ ''oldB'' \<and>
   jsJoin SEP (map extractedText (pages (docState (run exOverlap (initial ''key''))))) =
     ''A'' @ SEP @ ''oldB'' @ SEP @ ''B'' \<and>
   fullText (docState (run exOverlap (initial ''key''))) \<noteq>
     jsJoin SEP (map extractedText (pages (docState (run exOverlap (initial ''key'')))))"
  by code_simp

subsection \<open>The scheduler\<close>




subsection \<open>Progress\<close>

text \<open>
  C6, as the code has it, for a run that has the component to itself. In every state
  of the run: while status is processing, \<open>progress\<close> is the value of
  \<^verbatim>\<open>Math.round((pages.length / totalPages) * 100)\<close> in double-precision arithmetic (and 0
  before the document has loaded); from a state to the next \<open>progress\<close> never
  decreases, unless the turn is the Terminate button, which resets it to 0; at
  completed it is 100; and for a document of fewer than 200 pages it is 100 only at
  completed. It always lies between 0 and 100.
\<close>

theorem progress_of_run:
  fixes evs name now s0 e
  defines "i \<equiv> length (runs s0)"
  defines "s \<equiv> run evs (handleFileUpload (Some name) now s0)"
  assumes "quiescent s0" and "\<forall>e\<in>set evs. \<not> isUpload e"
  shows
    "(status (docState s) = Processing \<longrightarrow>
        progress (docState s) =
          (if totalPages (view i s) = 0 then 0
           else Math_round (jsMul (jsDiv (real (length (pages (docState s))))
                                        (real (totalPages (view i s)))) 100))) \<and>
     (e \<noteq> Stop \<and> \<not> isUpload e \<longrightarrow> progress (docState s) \<le> progress (docState (step e s))) \<and>
     (status (docState s) = Completed \<longrightarrow> progress (docState s) = 100) \<and>
     (progress (docState s) = 100 \<and> totalPages (view i s) < 200 \<longrightarrow>
        status (docState s) = Completed) \<and>
     0 \<le> progress (docState s) \<and> progress (docState s) \<le> 100"
proof -
  let ?v = "view i s"
  have so: "solo i s" unfolding i_def s_def using assms(3,4) by (rule reach)
  note inv = soloD(2,3)[OF so]
  have a: "progress (docState s) =
          (if totalPages ?v = 0 then 0
           else Math_round (jsMul (jsDiv (real (length (pages (docState s))))
                                        (real (totalPages ?v))) 100))"
    if "status (docState s) = Processing"
  proof -
    from that inv(2) have nt: "\<not> isTerminated ?v" unfolding docInv_def by auto
    from that have "status (docState ?v) \<noteq> Completed" by simp
    from progress_formula[OF inv(2) this] nt
    have f: "progress (docState s) = percent (length (pages (docState s))) (totalPages ?v)"
      by simp
    show ?thesis
    proof (cases "totalPages ?v = 0")
      case True
      with pages_bound(1)[OF inv] have "length (pages (docState s)) = 0" by simp
      with f True show ?thesis by simp
    next
      case False
      with f show ?thesis by (simp add: percent_def)
    qed
  qed
  have b: "progress (docState s) \<le> progress (docState (step e s))"
    if "e \<noteq> Stop \<and> \<not> isUpload e"
    using progress_global[OF so] that by blast
  have c: "progress (docState s) = 100" if "status (docState s) = Completed"
    using that inv(2) by (simp add: docInv_def)
  have d: "status (docState s) = Completed"
    if "progress (docState s) = 100 \<and> totalPages ?v < 200"
  proof (rule ccontr)
    assume nc: "status (docState s) \<noteq> Completed"
    then have nc': "status (docState ?v) \<noteq> Completed" by simp
    note f = progress_formula[OF inv(2) nc']
    show False
    proof (cases "isTerminated ?v \<or> pages (docState s) = []")
      case True
      then have "progress (docState s) = 0" using f by (auto split: if_splits)
      with that show ?thesis by simp
    next
      case False
      then have "length (pages (docState ?v)) < totalPages ?v"
        using pages_missing[OF inv nc'] by simp
      from percent_lt_100[OF this] that f False show ?thesis by simp
    qed
  qed
  from progress_range[OF inv] have r: "0 \<le> progress (docState s) \<and> progress (docState s) \<le> 100"
    by simp
  from a b c d r show ?thesis by blast
qed

text \<open>
  Stopping after page 1 of 2 takes \<open>progress\<close> from 50 to 0. With 40 pages, 23 pages
  done give 57, where 100 * 23 / 40 rounds to 58: the quotient 23 / 40 is not a
  double, and the product of the nearest double with 100 falls below 57.5. With 200
  pages, 199 pages done round to 100: \<open>progress\<close> reads 100 while the status is
  processing, and stays 100 when the last page fails and the run ends in error.
\<close>

theorem progress_of_run_counterexample:
  "progress (docState (run exOneDone exStart)) = 50 \<and>
   progress (docState (step Stop (run exOneDone exStart))) = 0 \<and>
   status (docState (run (firstPages 40 23) exStart)) = Processing \<and>
   length (pages (docState (run (firstPages 40 23) exStart))) = 23 \<and>
   totalPages (view 0 (run (firstPages 40 23) exStart)) = 40 \<and>
   progress (docState (run (firstPages 40 23) exStart)) = 57 \<and>
   Math_round (100 * 23 / 40) = 58 \<and>
   status (docState (run (firstPages 200 199) exStart)) = Processing \<and>
   length (pages (docState (run (firstPages 200 199) exStart))) = 199 \<and>
   totalPages (view 0 (run (firstPages 200 199) exStart)) = 200 \<and>
   progress (docState (run (firstPages 200 199) exStart)) = 100 \<and>
   status (docState (step (Turn 0 (RenderFailed 200 ''boom'')) (run (firstPages 200 199) exStart)))
     = Error \<and>
   progress (docState (step (Turn 0 (RenderFailed 200 ''boom'')) (run (firstPages 200 199) exStart)))
     = 100"
proof -
  have small: "progress (docState (run exOneDone exStart)) = 50"
    "progress (docState (step Stop (run exOneDone exStart))) = 0"
    by code_simp+
  have p40: "percent 23 40 = 57" and p200: "percent 199 200 = 100" by code_simp+
  have r: "Math_round (100 * 23 / 40) = 58" by (simp add: Math_round_def)
  note m = firstPages_progress[of 23 40] inOrder_run[of 23 40]
  note b = firstPages_progress[of 199 200] inOrder_run[of 199 200]
  have "fails (view 0 (run (firstPages 200 199) exStart)) (RenderFailed 200 ''boom'')"
    using b(5) by simp
  with b(4) have f: "status (docState (step (Turn 0 (RenderFailed 200 ''boom''))
        (run (firstPages 200 199) exStart))) = Error"
    "progress (docState (step (Turn 0 (RenderFailed 200 ''boom''))
        (run (firstPages 200 199) exStart))) = progress (docState (run (firstPages 200 199) exStart))"
    using b(6) by (simp_all add: fails_global)
  from small r m b f p40 p200 show ?thesis by simp
qed

theorem progress_of_run_witness:
  "status (docState (run exOneDone exStart)) = Processing \<and>
   length (pages (docState (run exOneDone exStart))) = 1 \<and>
   totalPages (view 0 (run exOneDone exStart)) = 2 \<and>
   progress (docState (run exOneDone exStart)) = 50 \<and>
   status (docState (run (exOneDone @ exLate) exStart)) = Completed \<and>
   progress (docState (run (exOneDone @ exLate) exStart)) = 100"
proof -
  have f: "status (docState (run exOneDone exStart)) = Processing"
    "length (pages (docState (run exOneDone exStart))) = 1"
    "totalPages (view 0 (run exOneDone exStart)) = 2"
    "status (docState (run (exOneDone @ exLate) exStart)) = Completed"
    by code_simp+
  have q: "quiescent (initial ''key'')" by (rule quiescent_initial)
  have u: "\<forall>e\<in>set exOneDone. \<not> isUpload e" "\<forall>e\<in>set (exOneDone @ exLate). \<not> isUpload e"
    by code_simp+
  have z: "length (runs (initial ''key'')) = 0" by (simp add: initial_def)
  have h: "Math_round (jsMul (jsDiv (real 1) (real 2)) 100) = 50" by code_simp
  note th1 = progress_of_run[OF q u(1), of "''doc.pdf''" 1000 Stop, folded exStart_def, unfolded z]
  note th2 = progress_of_run[OF q u(2), of "''doc.pdf''" 1000 Stop, folded exStart_def, unfolded z]
  from th1 f(1) have "progress (docState (run exOneDone exStart)) =
      (if totalPages (view 0 (run exOneDone exStart)) = 0 then 0
       else Math_round (jsMul (jsDiv (real (length (pages (docState (run exOneDone exStart)))))
              (real (totalPages (view 0 (run exOneDone exStart))))) 100))"
    by blast
  then have a: "progress (docState (run exOneDone exStart)) = 50"
    unfolding f(2,3) using h by simp
  from th2 f(4) have "progress (docState (run (exOneDone @ exLate) exStart)) = 100" by blast
  with a f show ?thesis by simp
qed

subsection \<open>Order of the pages\<close>

text \<open>
  C7 fails when a run is cancelled and a file is chosen while calls of the cancelled
  run are pending. The start of the new invocation clears the cancellation flag, so a
  page of the cancelled run that succeeds afterwards passes the check of line 110 and
  is added to the \<open>pages\<close> of the new run. In the state reached, status is processing
  and \<open>pages\<close> holds two entries with page number 1, the one of the new run and the one
  of the cancelled run; \<open>progress\<close> reads 100 with one page of two of the new run done.
\<close>

theorem pages_duplicated:
  "status (docState (run exDuplicate (initial ''key''))) = Processing \<and>
   fileName (docState (run exDuplicate (initial ''key''))) = ''new.pdf'' \<and>
   map pageNumber (pages (docState (run exDuplicate (initial ''key'')))) = [1, 1] \<and>
   map extractedText (pages (docState (run exDuplicate (initial ''key'')))) = [''A'', ''oldA''] \<and>
   \<not> distinct (map pageNumber (pages (docState (run exDuplicate (initial ''key''))))) \<and>
   progress (docState (run exDuplicate (initial ''key''))) = 100"
  by code_simp

subsection \<open>Starting a run\<close>

text \<open>
  C8. Starting a run with a chosen file, from any state whatever (also one whose status
  is completed or error), leaves \<open>pages\<close> empty, \<open>fullText\<close> empty and \<open>progress\<close> 0,
  with status processing and the cancellation flag cleared; this happens in the
  synchronous start of the handler, when the new invocation is suspended at the
  loading of the document and none of its page tasks exists yet.
\<close>

theorem handleFileUpload_resets:
  "pages (docState (handleFileUpload (Some name) now s)) = [] \<and>
   fullText (docState (handleFileUpload (Some name) now s)) = [] \<and>
   progress (docState (handleFileUpload (Some name) now s)) = 0 \<and>
   status (docState (handleFileUpload (Some name) now s)) = Processing \<and>
   isTerminated (handleFileUpload (Some name) now s) = False \<and>
   length (runs (handleFileUpload (Some name) now s)) = Suc (length (runs s)) \<and>
   phase (view (length (runs s)) (handleFileUpload (Some name) now s)) = Loading \<and>
   tasks (view (length (runs s)) (handleFileUpload (Some name) now s)) = (\<lambda>n. NotStarted)"
  by (simp add: view_upload_new) (simp add: handleFileUpload_def)

subsection \<open>The duration of a page\<close>

text \<open>
  C9. In every state the application reaches, every page in \<open>pages\<close> carries as
  \<open>durationMs\<close> the difference of two clock readings taken in turns of the invocation
  the page belongs to: the one of the turn in which its rendering had finished and
  \<^verbatim>\<open>performOCR\<close> was called, and the one of the later turn in which that call
  settled. The time from the dispatch of the task to the end of rendering is not part
  of it.
\<close>

theorem duration_spans_extraction:
  fixes evs key
  defines "s \<equiv> run evs (initial key)"
  assumes "p \<in> set (pages (docState s))"
  shows "\<exists>i img t0 r t1 before after.
           evs = before @ Turn i (OcrSettled (pageNumber p) r t1) # after \<and>
           Turn i (Rendered (pageNumber p) (Some img) t0) \<in> set before \<and>
           durationMs p = Some (t1 - t0) \<and> imagePreview p = Some img"
proof -
  have "traceInv ([] @ evs) (run evs (initial key))"
    by (intro traceInv_run traceInv_initial)
  with assms(2) obtain i where "spans evs i p"
    unfolding traceInv_def s_def by auto
  then show ?thesis unfolding spans_def by blast
qed

theorem duration_spans_extraction_witness:
  "map durationMs (pages (docState (run exCAB exStart))) = [Some 15, Some 20, Some 10] \<and>
   Turn 0 (Rendered 2 (Some ''img'') 1050) \<in> set exCAB \<and>
   Turn 0 (OcrSettled 2 (Responds (Some ''B'')) 1070) \<in> set exCAB \<and>
   (\<exists>i img t0 r t1 before after.
      Upload (Some ''doc.pdf'') 1000 # exCAB = before @ Turn i (OcrSettled 2 r t1) # after \<and>
      Turn i (Rendered 2 (Some img) t0) \<in> set before \<and>
      Some (20::int) = Some (t1 - t0))"
proof -
  let ?p = "\<lparr>pageNumber = 2, extractedText = ''B'', imagePreview = Some ''img'',
             durationMs = Some 20\<rparr>"
  have m: "?p \<in> set (pages (docState (run exCAB exStart)))" by code_simp
  have d: "map durationMs (pages (docState (run exCAB exStart))) = [Some 15, Some 20, Some 10]"
    by code_simp
  have e: "Turn 0 (Rendered 2 (Some ''img'') 1050) \<in> set exCAB"
    "Turn 0 (OcrSettled 2 (Responds (Some ''B'')) 1070) \<in> set exCAB"
    by code_simp+
  have st: "run (Upload (Some ''doc.pdf'') 1000 # exCAB) (initial ''key'') = run exCAB exStart"
    by (simp add: step_unfold exStart_def initial_def)
  from duration_spans_extraction[of ?p "Upload (Some ''doc.pdf'') 1000 # exCAB" "''key''"] m
  have "\<exists>i img t0 r t1 before after.
      Upload (Some ''doc.pdf'') 1000 # exCAB = before @ Turn i (OcrSettled 2 r t1) # after \<and>
      Turn i (Rendered 2 (Some img) t0) \<in> set before \<and>
      Some (20::int) = Some (t1 - t0)"
    unfolding st by simp blast
  with d e show ?thesis by simp
qed

subsection \<open>Empty text and missing key\<close>

text \<open>
  C10. When the service answers with an absent or empty text, the \<^verbatim>\<open>try\<close> of
  \<^verbatim>\<open>performOCR\<close> throws "Empty response from AI model.", which its own \<^verbatim>\<open>catch\<close>
  rethrows as "OCR Processing Failed: Empty response from AI model."; for a page in
  extraction while the handler of its invocation awaits the batch, this puts the
  status into error with that message, and the status stays error when every other
  invocation has returned. When the key is empty, \<^verbatim>\<open>performOCR\<close> throws on entry: no
  task ever reaches the service call, and the first page rendered in a run that is
  not cancelled puts the status into error with the missing-key message.
\<close>

theorem empty_text_and_missing_key:
  fixes evs name now s0
  defines "s \<equiv> run evs (handleFileUpload (Some name) now s0)"
  shows
    "performOCR_try (Responds None) = Inl ''Empty response from AI model.'' \<and>
     performOCR_try (Responds (Some [])) = Inl ''Empty response from AI model.'' \<and>
     (r = Responds None \<or> r = Responds (Some []) \<longrightarrow>
        performOCR_settle r = Inl ''OCR Processing Failed: Empty response from AI model.'' \<and>
        (i < length (runs s) \<and> phase (view i s) = Awaiting \<and>
         tasks (view i s) n = Extracting img t0 \<longrightarrow>
           status (docState (step (Turn i (OcrSettled n r t1)) s)) = Error \<and>
           apiError (step (Turn i (OcrSettled n r t1)) s) =
             Some ''OCR Processing Failed: Empty response from AI model.'' \<and>
           ((\<forall>j<length (runs s). j \<noteq> i \<longrightarrow> phase (view j s) = Returned) \<longrightarrow>
              status (docState (run later (step (Turn i (OcrSettled n r t1)) s))) = Error))) \<and>
     (API_KEY s0 = [] \<longrightarrow>
        performOCR_enter (API_KEY s) =
          Some ''API Key is missing. Please ensure process.env.API_KEY is configured.'' \<and>
        (length (runs s0) \<le> i \<and> i < length (runs s) \<longrightarrow> \<not> isExtracting (tasks (view i s) n)) \<and>
        (i < length (runs s) \<and> phase (view i s) = Awaiting \<and> tasks (view i s) n = Rendering \<and>
         \<not> isTerminated s \<longrightarrow>
           status (docState (step (Turn i (Rendered n (Some img) t1)) s)) = Error \<and>
           apiError (step (Turn i (Rendered n (Some img) t1)) s) =
             Some ''API Key is missing. Please ensure process.env.API_KEY is configured.'' \<and>
           isRejected (tasks (view i (step (Turn i (Rendered n (Some img) t1)) s)) n) \<and>
           ((\<forall>j<length (runs s). j \<noteq> i \<longrightarrow> phase (view j s) = Returned) \<longrightarrow>
              status (docState (run later (step (Turn i (Rendered n (Some img) t1)) s))) = Error)))"
proof (intro conjI impI)
  show "performOCR_try (Responds None) = Inl ''Empty response from AI model.''"
    and "performOCR_try (Responds (Some [])) = Inl ''Empty response from AI model.''"
    by (simp_all add: performOCR_try_def)
next
  assume r: "r = Responds None \<or> r = Responds (Some [])"
  then show settle:
    "performOCR_settle r = Inl ''OCR Processing Failed: Empty response from AI model.''"
    by (auto simp: performOCR_settle_def performOCR_try_def performOCR_catch_def)
  assume a: "i < length (runs s) \<and> phase (view i s) = Awaiting \<and>
      tasks (view i s) n = Extracting img t0"
  let ?s' = "step (Turn i (OcrSettled n r t1)) s"
  from a settle have f: "fails (view i s) (OcrSettled n r t1)" by simp
  from a have i: "i < length (runs s)" and ph: "phase (view i s) = Awaiting" by simp_all
  note g = fails_global[OF i ph f]
  from g(1) show "status (docState ?s') = Error" .
  from a settle show "apiError ?s' = Some ''OCR Processing Failed: Empty response from AI model.''"
    by (simp add: step_unfold reject_def Let_def catchFailure_def)
  assume "\<forall>j<length (runs s). j \<noteq> i \<longrightarrow> phase (view j s) = Returned"
  with i g(2) have "allReturned ?s'" by (intro allReturned_after)
  from error_run[OF g(1) this] show "status (docState (run later ?s')) = Error" by simp
next
  assume k: "API_KEY s0 = []"
  then have ks: "API_KEY s = []" by (simp add: s_def handleFileUpload_def)
  then show "performOCR_enter (API_KEY s) =
      Some ''API Key is missing. Please ensure process.env.API_KEY is configured.''"
    by (simp add: performOCR_enter_def)
  {
    assume b: "length (runs s0) \<le> i \<and> i < length (runs s)"
    show "\<not> isExtracting (tasks (view i s) n)"
      unfolding s_def
    proof (rule noExtract_run[where k = "length (runs s0)"])
      show "API_KEY (handleFileUpload (Some name) now s0) = []"
        using k by (simp add: handleFileUpload_def)
      show "\<forall>j. length (runs s0) \<le> j \<and> j < length (runs (handleFileUpload (Some name) now s0)) \<longrightarrow>
          (\<forall>m. \<not> isExtracting (tasks (view j (handleFileUpload (Some name) now s0)) m))"
      proof (intro allI impI)
        fix j m
        assume "length (runs s0) \<le> j \<and> j < length (runs (handleFileUpload (Some name) now s0))"
        then have "j = length (runs s0)" by simp
        then show "\<not> isExtracting (tasks (view j (handleFileUpload (Some name) now s0)) m)"
          by (simp add: view_upload_new)
      qed
      show "length (runs s0) \<le> i" using b by simp
      show "i < length (runs (run evs (handleFileUpload (Some name) now s0)))"
        using b by (simp add: s_def)
    qed
  }
  assume a: "i < length (runs s) \<and> phase (view i s) = Awaiting \<and> tasks (view i s) n = Rendering \<and>
      \<not> isTerminated s"
  let ?s' = "step (Turn i (Rendered n (Some img) t1)) s"
  from a ks have f: "fails (view i s) (Rendered n (Some img) t1)"
    by (simp add: performOCR_enter_def)
  from a have i: "i < length (runs s)" and ph: "phase (view i s) = Awaiting" by simp_all
  note g = fails_global[OF i ph f]
  from g(1) show "status (docState ?s') = Error" .
  from a ks have ex: "exec (Rendered n (Some img) t1) (view i s) = reject n
      ''API Key is missing. Please ensure process.env.API_KEY is configured.'' (view i s)"
    by (simp add: performOCR_enter_def)
  from a ex show "apiError ?s' =
      Some ''API Key is missing. Please ensure process.env.API_KEY is configured.''"
    by (simp add: step_unfold reject_def Let_def catchFailure_def)
  from i ex show "isRejected (tasks (view i ?s') n)"
    by (simp add: view_Turn_same tasks_reject)
  assume "\<forall>j<length (runs s). j \<noteq> i \<longrightarrow> phase (view j s) = Returned"
  with i g(2) have "allReturned ?s'" by (intro allReturned_after)
  from error_run[OF g(1) this] show "status (docState (run later ?s')) = Error" by simp
qed

theorem empty_text_and_missing_key_witness:
  "phase (view 0 (run exOneDone exStart)) = Awaiting \<and>
   tasks (view 0 (run exOneDone exStart)) 2 = Extracting ''img'' 1040 \<and>
   status (docState (step (Turn 0 (OcrSettled 2 (Responds None) 1060)) (run exOneDone exStart)))
     = Error \<and>
   apiError (step (Turn 0 (OcrSettled 2 (Responds None) 1060)) (run exOneDone exStart)) =
     Some ''OCR Processing Failed: Empty response from AI model.'' \<and>
   status (docState (run exLate
     (step (Turn 0 (OcrSettled 2 (Responds None) 1060)) (run exOneDone exStart)))) = Error \<and>
   phase (view 0 exNoKey) = Awaiting \<and> tasks (view 0 exNoKey) 1 = Rendering \<and>
   \<not> isTerminated exNoKey \<and>
   status (docState (step (Turn 0 (Rendered 1 (Some ''img'') 1010)) exNoKey)) = Error \<and>
   apiError (step (Turn 0 (Rendered 1 (Some ''img'') 1010)) exNoKey) =
     Some ''API Key is missing. Please ensure process.env.API_KEY is configured.'' \<and>
   \<not> isExtracting (tasks (view 0 (step (Turn 0 (Rendered 1 (Some ''img'') 1010)) exNoKey)) 1)"
proof -
  have a: "phase (view 0 (run exOneDone exStart)) = Awaiting"
    "tasks (view 0 (run exOneDone exStart)) 2 = Extracting ''img'' 1040"
    "length (runs (run exOneDone exStart)) = 1"
    by code_simp+
  have b: "phase (view 0 exNoKey) = Awaiting" "tasks (view 0 exNoKey) 1 = Rendering"
    "\<not> isTerminated exNoKey" "0 < length (runs exNoKey)"
    by code_simp+
  have k: "API_KEY (initial []) = []" by (simp add: initial_def)
  note t1 = empty_text_and_missing_key[of "Responds None" 0 exOneDone "''doc.pdf''" 1000
      "initial ''key''" 2 "''img''" 1040 1060 exLate]
  note t2 = empty_text_and_missing_key[of "Responds None" 0 "[Turn 0 (PdfLoaded 2 1001)]"
      "''doc.pdf''" 1000 "initial []" 1 "''img''" 1040 1010 "[]"]
  from t1 a have "status (docState (step (Turn 0 (OcrSettled 2 (Responds None) 1060))
        (run exOneDone exStart))) = Error \<and>
      apiError (step (Turn 0 (OcrSettled 2 (Responds None) 1060)) (run exOneDone exStart)) =
        Some ''OCR Processing Failed: Empty response from AI model.'' \<and>
      status (docState (run exLate
        (step (Turn 0 (OcrSettled 2 (Responds None) 1060)) (run exOneDone exStart)))) = Error"
    unfolding exStart_def by simp
  moreover from t2 b k have "status (docState (step (Turn 0 (Rendered 1 (Some ''img'') 1010))
        exNoKey)) = Error \<and>
      apiError (step (Turn 0 (Rendered 1 (Some ''img'') 1010)) exNoKey) =
        Some ''API Key is missing. Please ensure process.env.API_KEY is configured.''"
    unfolding exNoKey_def by blast
  moreover have "\<not> isExtracting (tasks (view 0 (step (Turn 0 (Rendered 1 (Some ''img'') 1010))
      exNoKey)) 1)"
    by code_simp
  ultimately show ?thesis using a b by simp
qed

end
